theory Spec2Isabelle
  imports Complex_Main "HOL-Library.List_Lexorder" "HOL-Library.Char_ord"
begin

section \<open>Numbers and truthiness\<close>

text \<open>
  JavaScript numbers are modelled as the reals: rounding, NaN and the infinities of
  IEEE doubles are outside the model. \<open>v || d\<close> on a number picks \<open>d\<close> when \<open>v\<close> is
  falsy, which for a real number means zero.
\<close>

definition orElse :: "real \<Rightarrow> real \<Rightarrow> real" where
  "orElse v d = (if v = 0 then d else v)"

section \<open>Components (components/Transform.js, components/Physics.js, Collider)\<close>

text \<open>
  The components with the fields the systems read. Transform's scale and velocities and
  Collider's width, height and offsets are read by no system and are left out.
\<close>

record Transform =
  pos_x :: real
  pos_y :: real
  rotation :: real

record Bounds =
  minX :: real
  minY :: real
  maxX :: real
  maxY :: real

record Physics =
  velocityX :: real
  velocityY :: real
  rotationVelocity :: real
  friction :: real
  bounceX :: real
  bounceY :: real
  bounds :: "Bounds option"
  mass :: real

text \<open>The Physics constructor clamps friction and bounce into [0,1] and mass to at least 0.001.\<close>

definition Physics_new ::
  "real \<Rightarrow> real \<Rightarrow> real \<Rightarrow> real \<Rightarrow> real \<Rightarrow> real \<Rightarrow> Bounds option \<Rightarrow> real \<Rightarrow> Physics" where
  "Physics_new vx vy rv fr bx by bnds m =
     \<lparr>velocityX = vx, velocityY = vy, rotationVelocity = rv,
      friction = max 0 (min 1 fr), bounceX = max 0 (min 1 bx), bounceY = max 0 (min 1 by),
      bounds = bnds, mass = max (1 / 1000) m\<rparr>"

text \<open>
  What an entity holds under the name Collider is an object with the fields below.
  \<open>definesCanCollideWith\<close> says whether the object has the method \<open>canCollideWith\<close>: an
  instance of the Collider class has it, a plain object with the same fields need not.
\<close>

record Collider =
  ctype :: string
  radius :: real
  layer :: int
  collidesWith :: "int list"
  isTrigger :: bool
  definesCanCollideWith :: bool

definition canCollideWith :: "Collider \<Rightarrow> Collider \<Rightarrow> bool" where
  "canCollideWith this other = (layer other \<in> set (collidesWith this))"

section \<open>The collision system (systems/CollisionSystem.js)\<close>

text \<open>
  The system reads three component slots of an entity (Collider, Transform, Physics), its
  tags and its id. An absent component is \<open>None\<close>. Entity ids are strings compared with
  \<open><\<close>; any linear order serves.
\<close>

record 'id Entity =
  eid :: 'id
  tags :: "string list"
  collider :: "Collider option"
  transform :: "Transform option"
  physics :: "Physics option"

datatype phase = Start | Stay | End

text \<open>
  Callbacks are user code; the model records each invocation: a tag callback registered
  under a key, called with the two entities and the phase, or a collider's own hook,
  called on the receiving entity's collider with the other entity.
\<close>

datatype 'id event =
    TagCallback string 'id 'id phase
  | ColliderHook 'id phase 'id

datatype error = TypeError

text \<open>
  \<open>getPairKey\<close>: the smaller id first. The source joins the two ids with a colon; the pair
  stands for that string.
\<close>

definition getPairKey :: "('id::linorder) Entity \<Rightarrow> 'id Entity \<Rightarrow> 'id \<times> 'id" where
  "getPairKey entityA entityB =
     (let idA = eid entityA; idB = eid entityB
      in if idA < idB then (idA, idB) else (idB, idA))"

definition tagKey :: "string \<Rightarrow> string \<Rightarrow> string" where
  "tagKey tagA tagB = (if tagA < tagB then tagA @ '':'' @ tagB else tagB @ '':'' @ tagA)"

definition checkCollision :: "'id Entity \<Rightarrow> 'id Entity \<Rightarrow> bool" where
  "checkCollision entityA entityB =
     (case (collider entityA, collider entityB, transform entityA, transform entityB) of
        (Some colliderA, Some colliderB, Some transformA, Some transformB) \<Rightarrow>
          if ctype colliderA = ''circle'' \<and> ctype colliderB = ''circle'' then
            (let dx = pos_x transformA - pos_x transformB;
                 dy = pos_y transformA - pos_y transformB;
                 distance = sqrt (dx * dx + dy * dy)
             in distance < radius colliderA + radius colliderB)
          else False
      | _ \<Rightarrow> False)"

definition resolveCollision :: "'id Entity \<Rightarrow> 'id Entity \<Rightarrow> 'id Entity \<times> 'id Entity" where
  "resolveCollision entityA entityB =
     (case (physics entityA, physics entityB, transform entityA, transform entityB,
            collider entityA, collider entityB) of
        (Some physicsA, Some physicsB, Some transformA, Some transformB,
         Some colliderA, Some colliderB) \<Rightarrow>
          (let dx = pos_x transformB - pos_x transformA;
               dy = pos_y transformB - pos_y transformA;
               distance = sqrt (dx * dx + dy * dy)
           in if distance = 0 then (entityA, entityB)
              else
               (let nx = dx / distance;
                    ny = dy / distance;
                    relVelocityX = velocityX physicsB - velocityX physicsA;
                    relVelocityY = velocityY physicsB - velocityY physicsA;
                    velocityAlongNormal = relVelocityX * nx + relVelocityY * ny
                in if velocityAlongNormal > 0 then (entityA, entityB)
                   else
                    (let restitution =
                           min (max (orElse (bounceX physicsA) 0) (orElse (bounceY physicsA) 0))
                               (max (orElse (bounceX physicsB) 0) (orElse (bounceY physicsB) 0));
                         impulseScalar = - (1 + restitution) * velocityAlongNormal;
                         totalMass = orElse (mass physicsA) 1 + orElse (mass physicsB) 1
                     in if totalMass = 0 then (entityA, entityB)
                        else
                         (let impulseA = impulseScalar * (orElse (mass physicsB) 1 / totalMass);
                              impulseB = impulseScalar * (orElse (mass physicsA) 1 / totalMass);
                              physicsA' = physicsA
                                \<lparr>velocityX := velocityX physicsA - nx * impulseA,
                                 velocityY := velocityY physicsA - ny * impulseA\<rparr>;
                              physicsB' = physicsB
                                \<lparr>velocityX := velocityX physicsB + nx * impulseB,
                                 velocityY := velocityY physicsB + ny * impulseB\<rparr>;
                              correctionDistance = (radius colliderA + radius colliderB) - distance;
                              percent = 1 / 2;
                              correction = percent * correctionDistance;
                              transformA' =
                                (if correctionDistance > 0 then transformA
                                   \<lparr>pos_x := pos_x transformA
                                       - nx * correction * (orElse (mass physicsB) 1 / totalMass),
                                    pos_y := pos_y transformA
                                       - ny * correction * (orElse (mass physicsB) 1 / totalMass)\<rparr>
                                 else transformA);
                              transformB' =
                                (if correctionDistance > 0 then transformB
                                   \<lparr>pos_x := pos_x transformB
                                       + nx * correction * (orElse (mass physicsA) 1 / totalMass),
                                    pos_y := pos_y transformB
                                       + ny * correction * (orElse (mass physicsA) 1 / totalMass)\<rparr>
                                 else transformB)
                          in (entityA\<lparr>physics := Some physicsA', transform := Some transformA'\<rparr>,
                              entityB\<lparr>physics := Some physicsB', transform := Some transformB'\<rparr>)))))
      | _ \<Rightarrow> (entityA, entityB))"

text \<open>
  The three handlers. \<open>handleCollisionStart\<close> looks up a callback for every combination
  of the two entities' tags, then notifies each collider; the other two notify the
  colliders only. \<open>Collider\<close> defines the three hooks, so a collider that is present has them.
\<close>

definition handleCollisionStart ::
  "string set \<Rightarrow> 'id Entity \<Rightarrow> 'id Entity \<Rightarrow> 'id event list" where
  "handleCollisionStart collisionCallbacks entityA entityB =
     concat (map (\<lambda>tagA. concat (map (\<lambda>tagB.
        (let key = tagKey tagA tagB
         in if key \<in> collisionCallbacks
            then [TagCallback key (eid entityA) (eid entityB) Start] else []))
        (tags entityB))) (tags entityA))
     @ (if collider entityA \<noteq> None then [ColliderHook (eid entityA) Start (eid entityB)] else [])
     @ (if collider entityB \<noteq> None then [ColliderHook (eid entityB) Start (eid entityA)] else [])"

definition handleCollisionStay :: "'id Entity \<Rightarrow> 'id Entity \<Rightarrow> 'id event list" where
  "handleCollisionStay entityA entityB =
     (if collider entityA \<noteq> None then [ColliderHook (eid entityA) Stay (eid entityB)] else [])
     @ (if collider entityB \<noteq> None then [ColliderHook (eid entityB) Stay (eid entityA)] else [])"

definition handleCollisionEnd :: "'id Entity \<Rightarrow> 'id Entity \<Rightarrow> 'id event list" where
  "handleCollisionEnd entityA entityB =
     (if collider entityA \<noteq> None then [ColliderHook (eid entityA) End (eid entityB)] else [])
     @ (if collider entityB \<noteq> None then [ColliderHook (eid entityB) End (eid entityA)] else [])"

text \<open>
  The system's own state: the pairs colliding in the previous frame (a \<open>Map\<close> from pair key
  to \<open>true\<close>) and the keys under which a tag callback is registered.
\<close>

record 'id CollisionSystem =
  collidingPairs :: "'id \<times> 'id \<rightharpoonup> bool"
  collisionCallbacks :: "string set"

definition onCollision :: "string \<Rightarrow> string \<Rightarrow> 'id CollisionSystem \<Rightarrow> 'id CollisionSystem" where
  "onCollision tagA tagB sys =
     sys\<lparr>collisionCallbacks := insert (tagKey tagA tagB) (collisionCallbacks sys)\<rparr>"

text \<open>
  The state of one \<open>update\<close> call while its two loops run: the array of entities (whose
  Transform and Physics the resolution mutates in place), the map of pairs found colliding
  in this frame, and the callbacks invoked so far.
\<close>

record 'id Frame =
  collidableArray :: "'id Entity list"
  newCollidingPairs :: "'id \<times> 'id \<rightharpoonup> bool"
  events :: "'id event list"

text \<open>
  The condition of the \<open>continue\<close> at the head of the inner loop,
  \<open>colliderA.canCollideWith && !colliderA.canCollideWith(colliderB)\<close>: the pair is skipped when
  the first collider has the method and does not list the second's layer. A first collider
  without the method skips nothing. Reading the method of an absent first collider, or
  the layer of an absent second one inside the method, is a TypeError in the source.
\<close>

definition skipsPair :: "Collider option \<Rightarrow> Collider option \<Rightarrow> error + bool" where
  "skipsPair colliderA colliderB =
     (case colliderA of
        None \<Rightarrow> Inl TypeError
      | Some a \<Rightarrow>
          if definesCanCollideWith a then
            (case colliderB of
               None \<Rightarrow> Inl TypeError
             | Some b \<Rightarrow> Inr (\<not> canCollideWith a b))
          else Inr False)"

text \<open>The body of the inner loop for the indices \<open>i < j\<close>.\<close>

definition checkPair ::
  "('id::linorder) CollisionSystem \<Rightarrow> nat \<Rightarrow> nat \<Rightarrow> 'id Frame \<Rightarrow> error + 'id Frame" where
  "checkPair sys i j fr =
     (let entityA = collidableArray fr ! i;
          entityB = collidableArray fr ! j
      in case skipsPair (collider entityA) (collider entityB) of
           Inl e \<Rightarrow> Inl e
         | Inr skip \<Rightarrow>
             if skip then Inr fr
             else
              (let pairKey = getPairKey entityA entityB;
                   wasColliding = (case collidingPairs sys pairKey of Some b \<Rightarrow> b | None \<Rightarrow> False);
                   isColliding = checkCollision entityA entityB
               in if isColliding then
                    (let resolved =
                           (if physics entityA \<noteq> None \<and> physics entityB \<noteq> None
                            then resolveCollision entityA entityB else (entityA, entityB));
                         entityA' = fst resolved;
                         entityB' = snd resolved
                     in Inr (fr\<lparr>collidableArray := (collidableArray fr)[i := entityA', j := entityB'],
                               newCollidingPairs := (newCollidingPairs fr)(pairKey \<mapsto> True),
                               events := events fr
                                 @ (if \<not> wasColliding
                                    then handleCollisionStart (collisionCallbacks sys) entityA' entityB'
                                    else [])
                                 @ handleCollisionStay entityA' entityB'\<rparr>))
                  else if wasColliding then
                    Inr (fr\<lparr>events := events fr @ handleCollisionEnd entityA entityB\<rparr>)
                  else Inr fr))"

text \<open>The loops \<open>for (j = i + 1; j < n; j++)\<close> and \<open>for (i = 0; i < n; i++)\<close>, with \<open>n\<close> the
  length of the array.\<close>

function innerLoop ::
  "('id::linorder) CollisionSystem \<Rightarrow> nat \<Rightarrow> nat \<Rightarrow> nat \<Rightarrow> 'id Frame \<Rightarrow> error + 'id Frame" where
  "innerLoop sys n i j fr =
     (if j < n then
        (case checkPair sys i j fr of
           Inl e \<Rightarrow> Inl e
         | Inr fr' \<Rightarrow> innerLoop sys n i (j + 1) fr')
      else Inr fr)"
  by pat_completeness auto
termination
  by (relation "measure (\<lambda>(sys, n, i, j, fr). n - j)") auto

function outerLoop ::
  "('id::linorder) CollisionSystem \<Rightarrow> nat \<Rightarrow> nat \<Rightarrow> 'id Frame \<Rightarrow> error + 'id Frame" where
  "outerLoop sys n i fr =
     (if i < n then
        (case innerLoop sys n i (i + 1) fr of
           Inl e \<Rightarrow> Inl e
         | Inr fr' \<Rightarrow> outerLoop sys n (i + 1) fr')
      else Inr fr)"
  by pat_completeness auto
termination
  by (relation "measure (\<lambda>(sys, n, i, fr). n - i)") auto

text \<open>
  \<open>update\<close> on the array that \<open>getEntities\<close> returned. It gives back the system with the
  new pair map, the entities as the resolution left them, and the callbacks invoked, in order.
\<close>

definition update ::
  "('id::linorder) CollisionSystem \<Rightarrow> 'id Entity list
     \<Rightarrow> error + ('id CollisionSystem \<times> 'id Entity list \<times> 'id event list)" where
  "update sys arr =
     (case outerLoop sys (length arr) 0
             \<lparr>collidableArray = arr, newCollidingPairs = Map.empty, events = []\<rparr> of
        Inl e \<Rightarrow> Inl e
      | Inr fr \<Rightarrow>
          Inr (sys\<lparr>collidingPairs := newCollidingPairs fr\<rparr>, collidableArray fr, events fr))"


section \<open>The standalone collision test (utils/gameUtils.js)\<close>

record GameObj =
  obj_x :: real
  obj_y :: real
  obj_size :: real

definition calculateDistance :: "real \<times> real \<Rightarrow> real \<times> real \<Rightarrow> real" where
  "calculateDistance point1 point2 =
     (let dx = fst point2 - fst point1; dy = snd point2 - snd point1
      in sqrt (dx * dx + dy * dy))"

definition utils_checkCollision :: "GameObj \<Rightarrow> GameObj \<Rightarrow> bool" where
  "utils_checkCollision obj1 obj2 =
     (let distance = calculateDistance (obj_x obj1, obj_y obj1) (obj_x obj2, obj_y obj2)
      in distance \<le> (obj_size obj1 + obj_size obj2) / 2)"

section \<open>Auxiliary notions for the collision loop\<close>

text \<open>The two entities a callback invocation is about.\<close>

fun eventIds :: "'id event \<Rightarrow> 'id set" where
  "eventIds (TagCallback key a b ph) = {a, b}"
| "eventIds (ColliderHook a ph b) = {a, b}"

text \<open>\<open>wasColliding\<close> as \<open>update\<close> computes it: \<open>collidingPairs.get(pairKey) || false\<close>.\<close>

definition wasColliding :: "('id::linorder) CollisionSystem \<Rightarrow> 'id Entity \<Rightarrow> 'id Entity \<Rightarrow> bool" where
  "wasColliding sys a b = (case collidingPairs sys (getPairKey a b) of Some c \<Rightarrow> c | None \<Rightarrow> False)"

text \<open>The pair of array positions \<open>p\<close>, \<open>q\<close> passes the layer filter of the loop.\<close>

definition allowed :: "'id Entity list \<Rightarrow> nat \<Rightarrow> nat \<Rightarrow> bool" where
  "allowed arr p q \<longleftrightarrow>
     (\<exists>cp cq. collider (arr ! p) = Some cp \<and> collider (arr ! q) = Some cq
        \<and> \<not> (definesCanCollideWith cp \<and> \<not> canCollideWith cp cq))"

text \<open>
  The loop invariant of \<open>update\<close> on the array \<open>arr\<close>: ids and colliders stay as they were,
  and every pair entered into the new map and every callback invoked belongs to a pair of
  positions that passed the layer filter.
\<close>

definition frameInv :: "('id::linorder) Entity list \<Rightarrow> 'id Frame \<Rightarrow> bool" where
  "frameInv arr fr \<longleftrightarrow>
     length (collidableArray fr) = length arr \<and>
     (\<forall>k<length arr. eid (collidableArray fr ! k) = eid (arr ! k)
         \<and> collider (collidableArray fr ! k) = collider (arr ! k)) \<and>
     (\<forall>key. newCollidingPairs fr key \<noteq> None \<longrightarrow>
         (\<exists>p q. p < q \<and> q < length arr \<and> allowed arr p q \<and> key = getPairKey (arr ! p) (arr ! q))) \<and>
     (\<forall>ev\<in>set (events fr).
         \<exists>p q. p < q \<and> q < length arr \<and> allowed arr p q \<and> eventIds ev = {eid (arr ! p), eid (arr ! q)})"

section \<open>Concrete entities and systems\<close>

definition circleEntity ::
  "nat \<Rightarrow> string list \<Rightarrow> real \<Rightarrow> real \<Rightarrow> real \<Rightarrow> int \<Rightarrow> int list \<Rightarrow> bool \<Rightarrow> Physics option \<Rightarrow> nat Entity" where
  "circleEntity i tgs x y r lay cw trig ph =
     \<lparr>eid = i, tags = tgs,
      collider = Some \<lparr>ctype = ''circle'', radius = r, layer = lay, collidesWith = cw,
                       isTrigger = trig, definesCanCollideWith = True\<rparr>,
      transform = Some \<lparr>pos_x = x, pos_y = y, rotation = 0\<rparr>,
      physics = ph\<rparr>"

definition emptySystem :: "nat CollisionSystem" where
  "emptySystem = \<lparr>collidingPairs = Map.empty, collisionCallbacks = {}\<rparr>"

definition movingBody :: "real \<Rightarrow> Physics" where
  "movingBody vx = Physics_new vx 0 0 0 0 0 None 1"


definition enemy :: "nat Entity" where
  "enemy = circleEntity 1 [''enemy''] 0 0 5 0 [0] False None"

definition taggedSystem :: "nat CollisionSystem" where
  "taggedSystem = onCollision ''player'' ''enemy'' emptySystem"



text \<open>Two entities on layers 1 and 2, each colliding with its own layer only.\<close>

definition layeredPair :: "nat Entity list" where
  "layeredPair = [circleEntity 0 [] 0 0 5 1 [1] False None, circleEntity 1 [] 3 0 5 2 [2] False None]"

text \<open>
  An entity whose collider is a plain object: the fields of a circle collider, without the
  method \<open>canCollideWith\<close>.
\<close>

definition plainCircleEntity ::
  "nat \<Rightarrow> string list \<Rightarrow> real \<Rightarrow> real \<Rightarrow> real \<Rightarrow> int \<Rightarrow> int list \<Rightarrow> nat Entity" where
  "plainCircleEntity i tgs x y r lay cw =
     \<lparr>eid = i, tags = tgs,
      collider = Some \<lparr>ctype = ''circle'', radius = r, layer = lay, collidesWith = cw,
                       isTrigger = False, definesCanCollideWith = False\<rparr>,
      transform = Some \<lparr>pos_x = x, pos_y = y, rotation = 0\<rparr>,
      physics = None\<rparr>"

text \<open>
  The two layers again, the entities tagged and overlapping, the first one with the plain
  object for a collider.
\<close>

definition unfilteredPair :: "nat Entity list" where
  "unfilteredPair =
     [plainCircleEntity 0 [''player''] 0 0 5 1 [1], circleEntity 1 [''enemy''] 3 0 5 2 [2] False None]"


section \<open>The movement system (systems/MovementSystem.js)\<close>

text \<open>
  \<open>Math.pow\<close> on a base that is not negative, as \<open>1 - friction\<close> is after the constructor's
  clamp: any base to the power 0 is 1, otherwise the real power (0 for base 0 and a positive
  exponent). JavaScript's Infinity for base 0 and a negative exponent, and its NaN for a
  negative base, have no counterpart in the reals.
\<close>

definition Math_pow :: "real \<Rightarrow> real \<Rightarrow> real" where
  "Math_pow b e = (if e = 0 then 1 else b powr e)"

text \<open>The first three steps of the loop body: velocity, friction, rotation.\<close>

definition integrate :: "real \<Rightarrow> Transform \<times> Physics \<Rightarrow> Transform \<times> Physics" where
  "integrate deltaTime tp =
     (let transform0 = fst tp; physics0 = snd tp;
          transform1 = transform0
            \<lparr>pos_x := pos_x transform0 + velocityX physics0 * deltaTime,
             pos_y := pos_y transform0 + velocityY physics0 * deltaTime\<rparr>;
          physics1 =
            (if friction physics0 > 0 then
               (let frictionFactor = Math_pow (1 - friction physics0) deltaTime;
                    vx = velocityX physics0 * frictionFactor;
                    vy = velocityY physics0 * frictionFactor
                in physics0\<lparr>velocityX := (if \<bar>vx\<bar> < 1 / 1000 then 0 else vx),
                            velocityY := (if \<bar>vy\<bar> < 1 / 1000 then 0 else vy)\<rparr>)
             else physics0);
          transform2 =
            (if rotationVelocity physics1 \<noteq> 0
             then transform1\<lparr>rotation := rotation transform1 + rotationVelocity physics1 * deltaTime\<rparr>
             else transform1)
      in (transform2, physics1))"

text \<open>The bounds step: each axis is clamped on its own, x first.\<close>

definition applyBounds :: "Transform \<times> Physics \<Rightarrow> Transform \<times> Physics" where
  "applyBounds tp =
     (let transform0 = fst tp; physics0 = snd tp
      in case bounds physics0 of
           None \<Rightarrow> (transform0, physics0)
         | Some b \<Rightarrow>
            (let bouncedX = (if bounceX physics0 \<noteq> 0
                             then - velocityX physics0 * bounceX physics0 else 0);
                 tpx =
                   (if pos_x transform0 < minX b
                    then (transform0\<lparr>pos_x := minX b\<rparr>, physics0\<lparr>velocityX := bouncedX\<rparr>)
                    else if pos_x transform0 > maxX b
                    then (transform0\<lparr>pos_x := maxX b\<rparr>, physics0\<lparr>velocityX := bouncedX\<rparr>)
                    else (transform0, physics0));
                 transform1 = fst tpx; physics1 = snd tpx;
                 bouncedY = (if bounceY physics1 \<noteq> 0
                             then - velocityY physics1 * bounceY physics1 else 0)
             in if pos_y transform1 < minY b
                then (transform1\<lparr>pos_y := minY b\<rparr>, physics1\<lparr>velocityY := bouncedY\<rparr>)
                else if pos_y transform1 > maxY b
                then (transform1\<lparr>pos_y := maxY b\<rparr>, physics1\<lparr>velocityY := bouncedY\<rparr>)
                else (transform1, physics1)))"

text \<open>
  The loop body of \<open>update\<close> for one entity; an entity without Transform or Physics is
  skipped. \<open>update\<close> runs it on every entity of the array \<open>getEntities\<close> returned.
\<close>

definition moveEntity :: "real \<Rightarrow> 'id Entity \<Rightarrow> 'id Entity" where
  "moveEntity deltaTime entity =
     (case (transform entity, physics entity) of
        (Some t, Some p) \<Rightarrow>
          (let tp = applyBounds (integrate deltaTime (t, p))
           in entity\<lparr>transform := Some (fst tp), physics := Some (snd tp)\<rparr>)
      | _ \<Rightarrow> entity)"

definition MovementSystem_update :: "real \<Rightarrow> 'id Entity list \<Rightarrow> 'id Entity list" where
  "MovementSystem_update deltaTime movingEntities = map (moveEntity deltaTime) movingEntities"

text \<open>An entity standing on the lower x bound of the box [0, 100] x [0, 100].\<close>

definition wallBody :: "real \<Rightarrow> real \<Rightarrow> nat Entity" where
  "wallBody vx bx =
     \<lparr>eid = 0, tags = [], collider = None,
      transform = Some \<lparr>pos_x = 0, pos_y = 0, rotation = 0\<rparr>,
      physics = Some (Physics_new vx 0 0 0 bx 0
                  (Some \<lparr>minX = 0, minY = 0, maxX = 100, maxY = 100\<rparr>) 1)\<rparr>"

section \<open>The entity registry (Entity.js and the World class)\<close>

text \<open>
  A component, as far as the registry looks at it: its back-reference to the owning entity
  and whether it defines the hooks \<open>onAdd\<close> and \<open>onRemove\<close>. The hooks are user code; each
  call is recorded, as is each \<open>console.warn\<close>. A component that leaves an entity leaves the
  model with it, so the reset of its back-reference on removal is not kept.
\<close>

datatype backref = Undefined | Null | Ref nat

record Component =
  entity_ref :: backref
  has_onAdd :: bool
  has_onRemove :: bool

datatype hook = OnAdd nat string | OnRemove nat string | Warning string

text \<open>
  An entity object: its \<open>Map\<close> of components and its \<open>Set\<close> of tags, both in insertion
  order, and the \<open>destroyed\<close> flag. The id \<open>entity_n\<close> is the number \<open>n\<close>.
\<close>

record EntityObj =
  components :: "(string \<times> Component) list"
  tagSet :: "string list"
  destroyed :: bool

text \<open>
  The world. \<open>heap\<close> holds every entity object ever created (an object outlives its removal
  from the world); \<open>entities\<close> are the keys of the world's entity map, \<open>componentEntities\<close> and
  \<open>taggedEntities\<close> the two reverse indices, \<open>hookLog\<close> the hooks and warnings so far.
\<close>

record World =
  heap :: "nat \<rightharpoonup> EntityObj"
  entities :: "nat list"
  entityIdCounter :: nat
  componentEntities :: "string \<rightharpoonup> nat list"
  taggedEntities :: "string \<rightharpoonup> nat list"
  hookLog :: "hook list"

definition World_new :: World where
  "World_new = \<lparr>heap = Map.empty, entities = [], entityIdCounter = 0,
                componentEntities = Map.empty, taggedEntities = Map.empty, hookLog = []\<rparr>"

text \<open>\<open>Set.add\<close>, \<open>Set.delete\<close> and \<open>Map.set\<close> on insertion-ordered containers.\<close>

definition setAdd :: "'a \<Rightarrow> 'a list \<Rightarrow> 'a list" where
  "setAdd x xs = (if x \<in> set xs then xs else xs @ [x])"

definition setDelete :: "'a \<Rightarrow> 'a list \<Rightarrow> 'a list" where
  "setDelete x xs = filter (\<lambda>y. y \<noteq> x) xs"

definition mapSet :: "'k \<Rightarrow> 'v \<Rightarrow> ('k \<times> 'v) list \<Rightarrow> ('k \<times> 'v) list" where
  "mapSet k v kvs =
     (if k \<in> fst ` set kvs then map (\<lambda>(k', v'). if k' = k then (k, v) else (k', v')) kvs
      else kvs @ [(k, v)])"

definition mapDelete :: "'k \<Rightarrow> ('k \<times> 'v) list \<Rightarrow> ('k \<times> 'v) list" where
  "mapDelete k kvs = filter (\<lambda>(k', v'). k' \<noteq> k) kvs"

definition logHook :: "hook \<Rightarrow> World \<Rightarrow> World" where
  "logHook h w = w\<lparr>hookLog := hookLog w @ [h]\<rparr>"

definition createEntity :: "World \<Rightarrow> World \<times> nat" where
  "createEntity w =
     (let i = entityIdCounter w;
          entity = \<lparr>components = [], tagSet = [], destroyed = False\<rparr>
      in (w\<lparr>heap := (heap w)(i \<mapsto> entity),
            entities := setAdd i (entities w),
            entityIdCounter := i + 1\<rparr>, i))"

definition registerComponent :: "string \<Rightarrow> nat \<Rightarrow> World \<Rightarrow> World" where
  "registerComponent typeName entity w =
     (let s = (case componentEntities w typeName of None \<Rightarrow> [] | Some s \<Rightarrow> s)
      in w\<lparr>componentEntities := (componentEntities w)(typeName \<mapsto> setAdd entity s)\<rparr>)"

definition unregisterComponent :: "string \<Rightarrow> nat \<Rightarrow> World \<Rightarrow> World" where
  "unregisterComponent typeName entity w =
     (case componentEntities w typeName of
        None \<Rightarrow> w
      | Some s \<Rightarrow>
          (let s' = setDelete entity s
           in if length s' = 0
              then w\<lparr>componentEntities := (componentEntities w)(typeName := None)\<rparr>
              else w\<lparr>componentEntities := (componentEntities w)(typeName \<mapsto> s')\<rparr>))"

definition registerTag :: "string \<Rightarrow> nat \<Rightarrow> World \<Rightarrow> World" where
  "registerTag tag entity w =
     (let s = (case taggedEntities w tag of None \<Rightarrow> [] | Some s \<Rightarrow> s)
      in w\<lparr>taggedEntities := (taggedEntities w)(tag \<mapsto> setAdd entity s)\<rparr>)"

definition unregisterTag :: "string \<Rightarrow> nat \<Rightarrow> World \<Rightarrow> World" where
  "unregisterTag tag entity w =
     (case taggedEntities w tag of
        None \<Rightarrow> w
      | Some s \<Rightarrow>
          (let s' = setDelete entity s
           in if length s' = 0
              then w\<lparr>taggedEntities := (taggedEntities w)(tag := None)\<rparr>
              else w\<lparr>taggedEntities := (taggedEntities w)(tag \<mapsto> s')\<rparr>))"

text \<open>
  The methods of an entity take the world and the entity's id. An id without an object
  cannot receive a call; the model leaves the world as it is.
\<close>

definition removeComponent :: "nat \<Rightarrow> string \<Rightarrow> World \<Rightarrow> World" where
  "removeComponent this type w =
     (case heap w this of
        None \<Rightarrow> w
      | Some e \<Rightarrow>
          if destroyed e then logHook (Warning ''Cannot remove component from destroyed entity'') w
          else
           (case map_of (components e) type of
              None \<Rightarrow> w
            | Some component \<Rightarrow>
               (let w1 = (if has_onRemove component then logHook (OnRemove this type) w else w);
                    e' = e\<lparr>components := mapDelete type (components e)\<rparr>;
                    w2 = w1\<lparr>heap := (heap w1)(this \<mapsto> e')\<rparr>
                in unregisterComponent type this w2)))"

definition addComponent :: "nat \<Rightarrow> string \<Rightarrow> Component \<Rightarrow> World \<Rightarrow> World" where
  "addComponent this type component w =
     (case heap w this of
        None \<Rightarrow> w
      | Some e \<Rightarrow>
          if destroyed e then logHook (Warning ''Cannot add component to destroyed entity'') w
          else
           (let w1 = (if type \<in> fst ` set (components e)
                      then removeComponent this type
                             (logHook (Warning ''Entity already has a component of this type. Replacing it.'') w)
                      else w)
            in case heap w1 this of
                 None \<Rightarrow> w1
               | Some e1 \<Rightarrow>
                  (let component' = (if entity_ref component = Undefined
                                     then component\<lparr>entity_ref := Ref this\<rparr> else component);
                       e2 = e1\<lparr>components := mapSet type component' (components e1)\<rparr>;
                       w2 = registerComponent type this (w1\<lparr>heap := (heap w1)(this \<mapsto> e2)\<rparr>)
                   in if has_onAdd component then logHook (OnAdd this type) w2 else w2)))"

definition addTag :: "nat \<Rightarrow> string \<Rightarrow> World \<Rightarrow> World" where
  "addTag this tag w =
     (case heap w this of
        None \<Rightarrow> w
      | Some e \<Rightarrow>
          if destroyed e then logHook (Warning ''Cannot add tag to destroyed entity'') w
          else if tag \<notin> set (tagSet e) then
            registerTag tag this (w\<lparr>heap := (heap w)(this \<mapsto> e\<lparr>tagSet := setAdd tag (tagSet e)\<rparr>)\<rparr>)
          else w)"

definition removeTag :: "nat \<Rightarrow> string \<Rightarrow> World \<Rightarrow> World" where
  "removeTag this tag w =
     (case heap w this of
        None \<Rightarrow> w
      | Some e \<Rightarrow>
          if destroyed e then logHook (Warning ''Cannot remove tag from destroyed entity'') w
          else if tag \<in> set (tagSet e) then
            unregisterTag tag this (w\<lparr>heap := (heap w)(this \<mapsto> e\<lparr>tagSet := setDelete tag (tagSet e)\<rparr>)\<rparr>)
          else w)"

text \<open>
  The part of \<open>Entity.destroy\<close> before it calls back into the world: every component is
  detached (hook, then the reverse index), the component map is cleared, every tag is
  unregistered, the tag set is cleared, and the entity is marked destroyed.
\<close>

definition detachAll :: "nat \<Rightarrow> EntityObj \<Rightarrow> World \<Rightarrow> World" where
  "detachAll this e w =
     (let w1 = fold (\<lambda>(type, component) w.
                   unregisterComponent type this
                     (if has_onRemove component then logHook (OnRemove this type) w else w))
                 (components e) w;
          w2 = fold (\<lambda>tag w. unregisterTag tag this w) (tagSet e) w1
      in w2\<lparr>heap := (heap w2)(this \<mapsto> \<lparr>components = [], tagSet = [], destroyed = True\<rparr>)\<rparr>)"

text \<open>An entity object that exists and is not destroyed.\<close>

definition isLive :: "World \<Rightarrow> nat \<Rightarrow> bool" where
  "isLive w i = (case heap w i of None \<Rightarrow> False | Some e \<Rightarrow> \<not> destroyed e)"

text \<open>
  \<open>Entity.destroy\<close> and \<open>World.destroyEntity\<close> call each other: the entity, once marked
  destroyed, asks the world to remove it, and the world calls \<open>destroy\<close> on the entity it
  finds under the id, which then returns at once.
\<close>

function Entity_destroy :: "nat \<Rightarrow> World \<Rightarrow> World"
  and World_destroyEntity :: "nat \<Rightarrow> World \<Rightarrow> World" where
  "Entity_destroy this w =
     (case heap w this of
        None \<Rightarrow> w
      | Some e \<Rightarrow>
          if destroyed e then w
          else World_destroyEntity this (detachAll this e w))"
| "World_destroyEntity i w =
     (if i \<in> set (entities w)
      then (let w' = Entity_destroy i w in w'\<lparr>entities := setDelete i (entities w')\<rparr>)
      else w)"
  by pat_completeness auto
termination
  apply (relation "measure (\<lambda>x. case x of
            Inl (i, w) \<Rightarrow> (if isLive w i then 3 else 0)
          | Inr (i, w) \<Rightarrow> (if isLive w i then 4 else 1))")
    apply (auto simp: isLive_def detachAll_def Let_def split: option.splits)
  done

text \<open>
  \<open>getEntitiesWithComponents\<close>: the entities of the first type's index, filtered by the index
  of each further type in turn; \<open>intersectRest\<close> is the loop over the further types. An
  absent index entry, or a result that has become empty, ends the query with the empty array.
\<close>

fun intersectRest :: "World \<Rightarrow> string list \<Rightarrow> nat list \<Rightarrow> nat list" where
  "intersectRest w [] result = result"
| "intersectRest w (componentType # rest) result =
     (case componentEntities w componentType of
        None \<Rightarrow> []
      | Some entitiesWithComponent \<Rightarrow>
          (let result' = filter (\<lambda>entity. entity \<in> set entitiesWithComponent) result
           in if length result' = 0 then [] else intersectRest w rest result'))"

definition getEntitiesWithComponents :: "World \<Rightarrow> string list \<Rightarrow> nat list" where
  "getEntitiesWithComponents w componentTypes =
     (case componentTypes of
        [] \<Rightarrow> entities w
      | firstType # rest \<Rightarrow>
          (case componentEntities w firstType of
             Some s \<Rightarrow> intersectRest w rest s
           | None \<Rightarrow> []))"

definition getEntitiesWithTag :: "World \<Rightarrow> string \<Rightarrow> nat list" where
  "getEntitiesWithTag w tag = (case taggedEntities w tag of Some s \<Rightarrow> s | None \<Rightarrow> [])"

definition getEntitiesByComponent :: "World \<Rightarrow> string \<Rightarrow> nat list" where
  "getEntitiesByComponent w componentType =
     (case componentEntities w componentType of Some s \<Rightarrow> s | None \<Rightarrow> [])"

definition getEntitiesByTag :: "World \<Rightarrow> string \<Rightarrow> nat list" where
  "getEntitiesByTag w tag = (case taggedEntities w tag of Some s \<Rightarrow> s | None \<Rightarrow> [])"

text \<open>
  \<open>World.clear\<close>: every entity of the world is destroyed, then the entity map and both
  indices are emptied. The list of systems is not part of the model.
\<close>

definition clear :: "World \<Rightarrow> World" where
  "clear w =
     (let w1 = fold Entity_destroy (entities w) w
      in w1\<lparr>entities := [], componentEntities := Map.empty, taggedEntities := Map.empty\<rparr>)"

text \<open>
  The operations on entities and the world, and runs of them from the empty world:
  \<open>createEntity\<close>, \<open>addComponent\<close>, \<open>removeComponent\<close>, \<open>addTag\<close>, \<open>removeTag\<close>,
  \<open>Entity.destroy\<close>, \<open>World.destroyEntity\<close> and \<open>World.clear\<close>. The index plumbing
  (\<open>registerComponent\<close> and the like) is reached through them only, and \<open>World.removeEntity\<close>,
  which takes an entity out of the entity map without destroying it and which nothing in
  the engine calls, is not among them.
\<close>

datatype op =
    CreateEntity
  | AddComponent nat string Component
  | RemoveComponent nat string
  | AddTag nat string
  | RemoveTag nat string
  | Destroy nat
  | DestroyEntity nat
  | Clear

fun exec :: "op \<Rightarrow> World \<Rightarrow> World" where
  "exec CreateEntity w = fst (createEntity w)"
| "exec (AddComponent i type c) w = addComponent i type c w"
| "exec (RemoveComponent i type) w = removeComponent i type w"
| "exec (AddTag i tag) w = addTag i tag w"
| "exec (RemoveTag i tag) w = removeTag i tag w"
| "exec (Destroy i) w = Entity_destroy i w"
| "exec (DestroyEntity i) w = World_destroyEntity i w"
| "exec Clear w = clear w"

definition run :: "op list \<Rightarrow> World \<Rightarrow> World" where
  "run ops w = fold exec ops w"

declare Entity_destroy.simps [simp del] World_destroyEntity.simps [simp del]

text \<open>\<open>Entity.hasComponent\<close> and \<open>Entity.hasTag\<close>, and the \<open>destroyed\<close> flag of an entity.\<close>

definition hasComponent :: "World \<Rightarrow> nat \<Rightarrow> string \<Rightarrow> bool" where
  "hasComponent w this type =
     (case heap w this of None \<Rightarrow> False | Some e \<Rightarrow> type \<in> fst ` set (components e))"

definition hasTag :: "World \<Rightarrow> nat \<Rightarrow> string \<Rightarrow> bool" where
  "hasTag w this tag = (case heap w this of None \<Rightarrow> False | Some e \<Rightarrow> tag \<in> set (tagSet e))"

definition isDestroyed :: "World \<Rightarrow> nat \<Rightarrow> bool" where
  "isDestroyed w i = (case heap w i of None \<Rightarrow> False | Some e \<Rightarrow> destroyed e)"

text \<open>
  A reverse index agrees with the forward mapping: under every key it lists, without
  repetition, exactly the holders, and a key without holders has no entry.
\<close>

definition indexOk :: "('k \<rightharpoonup> nat list) \<Rightarrow> ('k \<Rightarrow> nat set) \<Rightarrow> bool" where
  "indexOk idx H \<longleftrightarrow>
     (\<forall>k. case idx k of None \<Rightarrow> H k = {} | Some s \<Rightarrow> s \<noteq> [] \<and> distinct s \<and> set s = H k)"

text \<open>
  The invariant of the registry: both reverse indices agree with the entities' components
  and tags, the world's entity map lists exactly the live entities, ids are below the
  counter, and a destroyed entity has neither components nor tags.
\<close>

definition worldInv :: "World \<Rightarrow> bool" where
  "worldInv w \<longleftrightarrow>
     indexOk (componentEntities w) (\<lambda>t. {i. hasComponent w i t}) \<and>
     indexOk (taggedEntities w) (\<lambda>g. {i. hasTag w i g}) \<and>
     distinct (entities w) \<and>
     set (entities w) = {i. isLive w i} \<and>
     (\<forall>i e. heap w i = Some e \<longrightarrow>
        i < entityIdCounter w \<and> (destroyed e \<longrightarrow> components e = [] \<and> tagSet e = []))"

text \<open>What registering and unregistering do to an index, and the set an index holds under a key.\<close>

definition idxAdd :: "'k \<Rightarrow> nat \<Rightarrow> ('k \<rightharpoonup> nat list) \<Rightarrow> ('k \<rightharpoonup> nat list)" where
  "idxAdd k i idx = idx(k \<mapsto> setAdd i (case idx k of None \<Rightarrow> [] | Some s \<Rightarrow> s))"

definition idxDel :: "'k \<Rightarrow> nat \<Rightarrow> ('k \<rightharpoonup> nat list) \<Rightarrow> ('k \<rightharpoonup> nat list)" where
  "idxDel k i idx =
     (case idx k of
        None \<Rightarrow> idx
      | Some s \<Rightarrow> if setDelete i s = [] then idx(k := None) else idx(k \<mapsto> setDelete i s))"

definition idxSet :: "('k \<rightharpoonup> nat list) \<Rightarrow> 'k \<Rightarrow> nat set" where
  "idxSet idx k = (case idx k of None \<Rightarrow> {} | Some s \<Rightarrow> set s)"

text \<open>A component of the \<open>Component\<close> base class: back-reference null, both hooks defined.\<close>

definition plainComponent :: Component where
  "plainComponent = \<lparr>entity_ref = Null, has_onAdd = True, has_onRemove = True\<rparr>"

text \<open>Three entities holding the component sets {A}, {A, B} and {B}.\<close>

definition threeEntities :: "op list" where
  "threeEntities =
     [CreateEntity, CreateEntity, CreateEntity,
      AddComponent 0 ''A'' plainComponent,
      AddComponent 1 ''A'' plainComponent, AddComponent 1 ''B'' plainComponent,
      AddComponent 2 ''B'' plainComponent]"

text \<open>An entity with one component and one tag, and operations that address it later.\<close>

definition taggedEnemy :: "op list" where
  "taggedEnemy = [CreateEntity, AddComponent 0 ''Transform'' plainComponent, AddTag 0 ''enemy'']"

definition laterOps :: "op list" where
  "laterOps = [AddComponent 0 ''Physics'' plainComponent, AddTag 0 ''enemy'', CreateEntity]"

section \<open>The spatial hash grid (SpatialHashGrid.js)\<close>

text \<open>
  The grid works on plain game objects: an optional position, an optional collider (its
  radius), an optional type and the list of cell keys the last insertion recorded on the
  object (\<open>_spatialCells\<close>, absent until then). A cell key is the string of a column and a
  row; the pair of integers stands for it.
\<close>

record GridObject =
  position :: "(real \<times> real) option"
  colliderRadius :: "real option"
  objType :: "string option"
  spatialCells :: "(int \<times> int) list option"

text \<open>
  The grid and the objects it refers to. A cell is an array of object references, in
  insertion order; objects are referred to by their index in \<open>objects\<close>.
\<close>

record SpatialHashGrid =
  width :: real
  height :: real
  cellSize :: real
  columns :: int
  rows :: int
  cells :: "int \<times> int \<rightharpoonup> nat list"
  objects :: "nat \<rightharpoonup> GridObject"

definition SpatialHashGrid_new :: "real \<Rightarrow> real \<Rightarrow> real \<Rightarrow> (nat \<rightharpoonup> GridObject) \<Rightarrow> SpatialHashGrid" where
  "SpatialHashGrid_new w h cs objs =
     \<lparr>width = w, height = h, cellSize = cs,
      columns = \<lceil>w / cs\<rceil>, rows = \<lceil>h / cs\<rceil>,
      cells = Map.empty, objects = objs\<rparr>"

text \<open>The cells an object at \<open>(x, y)\<close> with the given radius overlaps, columns outermost.\<close>

definition cellRange :: "SpatialHashGrid \<Rightarrow> real \<Rightarrow> real \<Rightarrow> real \<Rightarrow> (int \<times> int) list" where
  "cellRange g x y rad =
     (let minCol = max 0 \<lfloor>(x - rad) / cellSize g\<rfloor>;
          maxCol = min (columns g - 1) \<lfloor>(x + rad) / cellSize g\<rfloor>;
          minRow = max 0 \<lfloor>(y - rad) / cellSize g\<rfloor>;
          maxRow = min (rows g - 1) \<lfloor>(y + rad) / cellSize g\<rfloor>
      in concat (map (\<lambda>col. map (\<lambda>row. (col, row)) [minRow..maxRow]) [minCol..maxCol]))"

definition insertEntity :: "nat \<Rightarrow> SpatialHashGrid \<Rightarrow> SpatialHashGrid" where
  "insertEntity entity g =
     (case objects g entity of
        None \<Rightarrow> g
      | Some obj \<Rightarrow>
         (case (position obj, colliderRadius obj) of
            (Some (x, y), Some r) \<Rightarrow>
              (let rad = orElse r 0;
                   filled = fold (\<lambda>key (recorded, cs).
                               (recorded @ [key],
                                cs(key \<mapsto> (case cs key of None \<Rightarrow> [] | Some cell \<Rightarrow> cell) @ [entity])))
                             (cellRange g x y rad) ([], cells g)
               in g\<lparr>cells := snd filled,
                     objects := (objects g)(entity \<mapsto> obj\<lparr>spatialCells := Some (fst filled)\<rparr>)\<rparr>)
          | _ \<Rightarrow> g))"

text \<open>\<open>cell.splice(cell.indexOf(entity), 1)\<close> removes the first occurrence.\<close>

definition removeEntity :: "nat \<Rightarrow> SpatialHashGrid \<Rightarrow> SpatialHashGrid" where
  "removeEntity entity g =
     (case objects g entity of
        None \<Rightarrow> g
      | Some obj \<Rightarrow>
         (case spatialCells obj of
            None \<Rightarrow> g
          | Some keys \<Rightarrow>
             (let cs = fold (\<lambda>key cs.
                          (case cs key of
                             None \<Rightarrow> cs
                           | Some cell \<Rightarrow>
                              (let cell' = remove1 entity cell
                               in if length cell' = 0 then cs(key := None) else cs(key \<mapsto> cell')))
                          ) keys (cells g)
              in g\<lparr>cells := cs, objects := (objects g)(entity \<mapsto> obj\<lparr>spatialCells := Some []\<rparr>)\<rparr>)))"

definition grid_clear :: "SpatialHashGrid \<Rightarrow> SpatialHashGrid" where
  "grid_clear g = g\<lparr>cells := Map.empty\<rparr>"

text \<open>
  The filter of \<open>getNearbyEntities\<close>: no type asked for, or the other object has a truthy
  type (a non-empty string) equal to the one asked for.
\<close>

definition typeMatches :: "SpatialHashGrid \<Rightarrow> string option \<Rightarrow> nat \<Rightarrow> bool" where
  "typeMatches g type other =
     (type = None \<or>
      (case objects g other of
         None \<Rightarrow> False
       | Some obj \<Rightarrow> (case objType obj of None \<Rightarrow> False | Some s \<Rightarrow> s \<noteq> [] \<and> Some s = type)))"

definition getNearbyEntities :: "SpatialHashGrid \<Rightarrow> nat \<Rightarrow> string option \<Rightarrow> nat list" where
  "getNearbyEntities g entity type =
     (case objects g entity of
        None \<Rightarrow> []
      | Some obj \<Rightarrow>
         (case (position obj, spatialCells obj) of
            (Some pos, Some keys) \<Rightarrow>
              fold (\<lambda>key result.
                      (case cells g key of
                         None \<Rightarrow> result
                       | Some cell \<Rightarrow>
                          fold (\<lambda>other result.
                                  if other \<noteq> entity \<and> typeMatches g type other
                                  then (if other \<in> set result then result else result @ [other])
                                  else result)
                               cell result))
                   keys []
          | _ \<Rightarrow> []))"

text \<open>The objects in the cell under a key.\<close>

definition cellMembers :: "SpatialHashGrid \<Rightarrow> int \<times> int \<Rightarrow> nat set" where
  "cellMembers g key = (case cells g key of None \<Rightarrow> {} | Some cell \<Rightarrow> set cell)"

definition gridObject :: "real \<Rightarrow> real \<Rightarrow> real \<Rightarrow> string option \<Rightarrow> GridObject" where
  "gridObject x y r ty =
     \<lparr>position = Some (x, y), colliderRadius = Some r, objType = ty, spatialCells = None\<rparr>"

text \<open>
  A 100 by 100 grid of cell size 50 with three objects inserted: object 0 spans all four
  cells, object 1 shares two of them with it, object 2 (an enemy) one.
\<close>

definition threeObjectGrid :: SpatialHashGrid where
  "threeObjectGrid =
     insertEntity 2 (insertEntity 1 (insertEntity 0
       (SpatialHashGrid_new 100 100 50
          [0 \<mapsto> gridObject 50 50 10 None,
           1 \<mapsto> gridObject 50 25 10 (Some ''player''),
           2 \<mapsto> gridObject 10 90 5 (Some ''enemy'')])))"

section \<open>Narrow phase\<close>

lemma sqrt_less_iff: "0 \<le> d \<Longrightarrow> sqrt d < r \<longleftrightarrow> 0 < r \<and> d < r * r"
proof
  assume d: "0 \<le> d" and lt: "sqrt d < r"
  have r: "0 < r" using lt real_sqrt_ge_zero [OF d] by linarith
  have "sqrt (r * r) = r" using r by simp
  with lt have "sqrt d < sqrt (r * r)" by simp
  then have "d < r * r" by (simp only: real_sqrt_less_iff)
  with r show "0 < r \<and> d < r * r" by simp
next
  assume d: "0 \<le> d" and h: "0 < r \<and> d < r * r"
  then have "sqrt d < sqrt (r * r)" by (simp only: real_sqrt_less_iff)
  moreover have "sqrt (r * r) = r" using h by simp
  ultimately show "sqrt d < r" by simp
qed

lemma sqrt_100: "sqrt (100::real) = 10"
  by (rule real_sqrt_unique) simp_all

lemma sqrt_36: "sqrt (36::real) = 6"
  by (rule real_sqrt_unique) simp_all

text \<open>The system's test on two circles is the strict comparison.\<close>

lemma checkCollision_circles:
  assumes "collider a = Some ca" "collider b = Some cb" "transform a = Some ta" "transform b = Some tb"
    "ctype ca = ''circle''" "ctype cb = ''circle''"
  shows "checkCollision a b \<longleftrightarrow>
     sqrt ((pos_x ta - pos_x tb)\<^sup>2 + (pos_y ta - pos_y tb)\<^sup>2) < radius ca + radius cb"
  using assms by (simp add: checkCollision_def Let_def power2_eq_square)

text \<open>The standalone test of gameUtils.js is the closed comparison: touching objects collide.\<close>

lemma utils_checkCollision_touching:
  "utils_checkCollision \<lparr>obj_x = 0, obj_y = 0, obj_size = 10\<rparr> \<lparr>obj_x = 10, obj_y = 0, obj_size = 10\<rparr>"
  by (simp add: utils_checkCollision_def calculateDistance_def Let_def sqrt_100)

text \<open>
  C1: the claim asks for a closed boundary (distance equal to the sum of the radii counts as
  colliding). The collision system compares with \<open><\<close>: two circles of radius 5 whose
  centers are exactly 10 apart are reported as not colliding.
\<close>

theorem checkCollision_touching_is_not_colliding:
  "checkCollision (circleEntity 0 [] 0 0 5 0 [0] False None)
                  (circleEntity 1 [] 10 0 5 0 [0] False None) = False"
  by (simp add: checkCollision_def circleEntity_def Let_def sqrt_100)

section \<open>Resolution\<close>

lemma resolveCollision_fst_same:
  "eid (fst (resolveCollision a b)) = eid a \<and> tags (fst (resolveCollision a b)) = tags a
   \<and> collider (fst (resolveCollision a b)) = collider a"
  by (simp add: resolveCollision_def Let_def split: option.splits)

lemma resolveCollision_snd_same:
  "eid (snd (resolveCollision a b)) = eid b \<and> tags (snd (resolveCollision a b)) = tags b
   \<and> collider (snd (resolveCollision a b)) = collider b"
  by (simp add: resolveCollision_def Let_def split: option.splits)




section \<open>The pair loop\<close>



lemma eventIds_start: "ev \<in> set (handleCollisionStart cbs a b) \<Longrightarrow> eventIds ev = {eid a, eid b}"
  by (auto simp: handleCollisionStart_def Let_def split: if_splits)

lemma eventIds_stay: "ev \<in> set (handleCollisionStay a b) \<Longrightarrow> eventIds ev = {eid a, eid b}"
  by (auto simp: handleCollisionStay_def split: if_splits)

lemma eventIds_end: "ev \<in> set (handleCollisionEnd a b) \<Longrightarrow> eventIds ev = {eid a, eid b}"
  by (auto simp: handleCollisionEnd_def split: if_splits)

lemma innerLoop_rule:
  assumes step: "\<And>j fr. i < j \<Longrightarrow> j < n \<Longrightarrow> I fr \<Longrightarrow> \<exists>fr'. checkPair sys i j fr = Inr fr' \<and> I fr'"
  shows "I fr \<Longrightarrow> i < j0 \<Longrightarrow> \<exists>fr'. innerLoop sys n i j0 fr = Inr fr' \<and> I fr'"
proof (induction "n - j0" arbitrary: j0 fr)
  case 0
  then show ?case by simp
next
  case (Suc k)
  then have lt: "j0 < n" by simp
  from step [OF Suc.prems(2) lt Suc.prems(1)]
  obtain fr1 where s1: "checkPair sys i j0 fr = Inr fr1" and i1: "I fr1" by blast
  have "k = n - (j0 + 1)" using Suc.hyps(2) by simp
  from Suc.hyps(1) [OF this i1] Suc.prems(2)
  obtain fr2 where "innerLoop sys n i (j0 + 1) fr1 = Inr fr2" "I fr2" by auto
  with s1 lt show ?case by simp
qed

lemma outerLoop_rule:
  assumes step: "\<And>i j fr. i < j \<Longrightarrow> j < n \<Longrightarrow> I fr \<Longrightarrow> \<exists>fr'. checkPair sys i j fr = Inr fr' \<and> I fr'"
  shows "I fr \<Longrightarrow> \<exists>fr'. outerLoop sys n i0 fr = Inr fr' \<and> I fr'"
proof (induction "n - i0" arbitrary: i0 fr)
  case 0
  then show ?case by simp
next
  case (Suc k)
  then have lt: "i0 < n" by simp
  have "\<exists>fr'. innerLoop sys n i0 (i0 + 1) fr = Inr fr' \<and> I fr'"
    by (rule innerLoop_rule [where I = I]) (use step Suc.prems in auto)
  then obtain fr1 where s1: "innerLoop sys n i0 (i0 + 1) fr = Inr fr1" and i1: "I fr1" by blast
  have "k = n - (i0 + 1)" using Suc.hyps(2) by simp
  from Suc.hyps(1) [OF this i1]
  obtain fr2 where "outerLoop sys n (i0 + 1) fr1 = Inr fr2" "I fr2" by auto
  with s1 lt show ?case by simp
qed

lemma getPairKey_cong: "eid a' = eid a \<Longrightarrow> eid b' = eid b \<Longrightarrow> getPairKey a' b' = getPairKey a b"
  by (simp add: getPairKey_def)

lemma getPairKey_ids: "getPairKey a b = getPairKey c d \<Longrightarrow> {eid a, eid b} = {eid c, eid d}"
  by (auto simp: getPairKey_def Let_def split: if_splits)

lemma checkPair_frameInv:
  assumes cols: "\<forall>e\<in>set arr. collider e \<noteq> None"
    and ij: "i < j" "j < length arr"
    and inv: "frameInv arr fr"
  shows "\<exists>fr'. checkPair sys i j fr = Inr fr' \<and> frameInv arr fr'"
proof -
  let ?A = "collidableArray fr ! i" and ?B = "collidableArray fr ! j"
  have i: "i < length arr" using ij by simp
  from inv have len: "length (collidableArray fr) = length arr"
    and same: "\<And>k. k < length arr \<Longrightarrow> eid (collidableArray fr ! k) = eid (arr ! k)
         \<and> collider (collidableArray fr ! k) = collider (arr ! k)"
    and pairs: "\<And>key. newCollidingPairs fr key \<noteq> None \<Longrightarrow>
         (\<exists>p q. p < q \<and> q < length arr \<and> allowed arr p q \<and> key = getPairKey (arr ! p) (arr ! q))"
    and evs: "\<And>ev. ev \<in> set (events fr) \<Longrightarrow>
         \<exists>p q. p < q \<and> q < length arr \<and> allowed arr p q \<and> eventIds ev = {eid (arr ! p), eid (arr ! q)}"
    by (auto simp: frameInv_def)
  from cols i ij obtain ca cb where ca: "collider (arr ! i) = Some ca" and cb: "collider (arr ! j) = Some cb"
    by (metis nth_mem not_Some_eq)
  have cA: "collider ?A = Some ca" and cB: "collider ?B = Some cb"
    using same [OF i] same [OF ij(2)] ca cb by simp_all
  have idA: "eid ?A = eid (arr ! i)" and idB: "eid ?B = eid (arr ! j)"
    using same [OF i] same [OF ij(2)] by simp_all
  show ?thesis
  proof (cases "definesCanCollideWith ca \<and> \<not> canCollideWith ca cb")
    case skip: True
    then have "checkPair sys i j fr = Inr fr"
      by (simp add: checkPair_def skipsPair_def Let_def cA cB)
    with inv show ?thesis by simp
  next
    case False
    then have noskip: "skipsPair (collider ?A) (collider ?B) = Inr False"
      by (auto simp: skipsPair_def cA cB)
    from False have al: "allowed arr i j" by (auto simp: allowed_def ca cb)
    have key: "getPairKey ?A ?B = getPairKey (arr ! i) (arr ! j)"
      by (rule getPairKey_cong [OF idA idB])
    define res where "res = (if physics ?A \<noteq> None \<and> physics ?B \<noteq> None
                            then resolveCollision ?A ?B else (?A, ?B))"
    have rA: "eid (fst res) = eid ?A \<and> tags (fst res) = tags ?A \<and> collider (fst res) = collider ?A"
      and rB: "eid (snd res) = eid ?B \<and> tags (snd res) = tags ?B \<and> collider (snd res) = collider ?B"
      by (simp_all add: res_def resolveCollision_fst_same resolveCollision_snd_same)
    have newev: "\<And>ev. ev \<in> set (handleCollisionStart (collisionCallbacks sys) (fst res) (snd res))
                     \<or> ev \<in> set (handleCollisionStay (fst res) (snd res))
                     \<or> ev \<in> set (handleCollisionEnd ?A ?B)
                  \<Longrightarrow> eventIds ev = {eid (arr ! i), eid (arr ! j)}"
      using eventIds_start eventIds_stay eventIds_end rA rB idA idB by metis
    show ?thesis
    proof (cases "checkCollision ?A ?B")
      case coll: True
      define fr' where "fr' = fr\<lparr>collidableArray := (collidableArray fr)[i := fst res, j := snd res],
                               newCollidingPairs := (newCollidingPairs fr)(getPairKey ?A ?B \<mapsto> True),
                               events := events fr
                                 @ (if \<not> (case collidingPairs sys (getPairKey ?A ?B) of Some b \<Rightarrow> b | None \<Rightarrow> False)
                                    then handleCollisionStart (collisionCallbacks sys) (fst res) (snd res)
                                    else [])
                                 @ handleCollisionStay (fst res) (snd res)\<rparr>"
      have step: "checkPair sys i j fr = Inr fr'"
        using noskip coll by (simp add: checkPair_def Let_def cA cB fr'_def res_def)
      have "frameInv arr fr'"
        unfolding frameInv_def
      proof (intro conjI allI impI ballI)
        show "length (collidableArray fr') = length arr" by (simp add: fr'_def len)
      next
        fix k assume k: "k < length arr"
        show "eid (collidableArray fr' ! k) = eid (arr ! k)"
          using same [OF k] rA rB idA idB k len ij
          by (simp add: fr'_def nth_list_update)
        show "collider (collidableArray fr' ! k) = collider (arr ! k)"
          using same [OF k] rA rB cA cB ca cb k len ij
          by (auto simp add: fr'_def nth_list_update)
      next
        fix key assume "newCollidingPairs fr' key \<noteq> None"
        then have "key = getPairKey ?A ?B \<or> newCollidingPairs fr key \<noteq> None"
          by (auto simp: fr'_def split: if_splits)
        then show "\<exists>p q. p < q \<and> q < length arr \<and> allowed arr p q \<and> key = getPairKey (arr ! p) (arr ! q)"
          using pairs key al ij by metis
      next
        fix ev assume "ev \<in> set (events fr')"
        then have "ev \<in> set (events fr)
                 \<or> ev \<in> set (handleCollisionStart (collisionCallbacks sys) (fst res) (snd res))
                 \<or> ev \<in> set (handleCollisionStay (fst res) (snd res))"
          by (auto simp: fr'_def split: if_splits)
        then show "\<exists>p q. p < q \<and> q < length arr \<and> allowed arr p q \<and> eventIds ev = {eid (arr ! p), eid (arr ! q)}"
          using evs newev al ij by metis
      qed
      with step show ?thesis by blast
    next
      case ncoll: False
      show ?thesis
      proof (cases "case collidingPairs sys (getPairKey ?A ?B) of Some b \<Rightarrow> b | None \<Rightarrow> False")
        case was: True
        define fr' where "fr' = fr\<lparr>events := events fr @ handleCollisionEnd ?A ?B\<rparr>"
        have step: "checkPair sys i j fr = Inr fr'"
          using noskip ncoll was by (simp add: checkPair_def Let_def cA cB fr'_def)
        have "frameInv arr fr'"
          unfolding frameInv_def
        proof (intro conjI allI impI ballI)
          show "length (collidableArray fr') = length arr" by (simp add: fr'_def len)
        next
          fix k assume k: "k < length arr"
          show "eid (collidableArray fr' ! k) = eid (arr ! k)"
            and "collider (collidableArray fr' ! k) = collider (arr ! k)"
            using same [OF k] by (simp_all add: fr'_def)
        next
          fix key assume "newCollidingPairs fr' key \<noteq> None"
          then show "\<exists>p q. p < q \<and> q < length arr \<and> allowed arr p q \<and> key = getPairKey (arr ! p) (arr ! q)"
            using pairs by (simp add: fr'_def)
        next
          fix ev assume "ev \<in> set (events fr')"
          then have "ev \<in> set (events fr) \<or> ev \<in> set (handleCollisionEnd ?A ?B)"
            by (auto simp: fr'_def)
          then show "\<exists>p q. p < q \<and> q < length arr \<and> allowed arr p q \<and> eventIds ev = {eid (arr ! p), eid (arr ! q)}"
            using evs newev al ij by metis
        qed
        with step show ?thesis by blast
      next
        case False
        then have "checkPair sys i j fr = Inr fr"
          using noskip ncoll by (simp add: checkPair_def Let_def cA cB)
        with inv show ?thesis by simp
      qed
    qed
  qed
qed

lemma update_frameInv:
  assumes cols: "\<forall>e\<in>set arr. collider e \<noteq> None"
  shows "\<exists>fr. outerLoop sys (length arr) 0
             \<lparr>collidableArray = arr, newCollidingPairs = Map.empty, events = []\<rparr> = Inr fr
           \<and> frameInv arr fr"
proof (rule outerLoop_rule [where I = "frameInv arr"])
  show "frameInv arr \<lparr>collidableArray = arr, newCollidingPairs = Map.empty, events = []\<rparr>"
    by (simp add: frameInv_def)
next
  fix i j fr
  assume "i < j" "j < length arr" "frameInv arr fr"
  then show "\<exists>fr'. checkPair sys i j fr = Inr fr' \<and> frameInv arr fr'"
    using checkPair_frameInv [OF cols] by blast
qed

lemma pair_ids_index:
  assumes ids: "distinct (map eid arr)"
    and b: "i < length arr" "j < length arr" "p < length arr" "q < length arr"
    and eq: "{eid (arr ! i), eid (arr ! j)} = {eid (arr ! p), eid (arr ! q)}"
  shows "(i = p \<and> j = q) \<or> (i = q \<and> j = p)"
proof -
  have inj: "\<And>a b. a < length arr \<Longrightarrow> b < length arr \<Longrightarrow> eid (arr ! a) = eid (arr ! b) \<Longrightarrow> a = b"
    using ids by (metis length_map nth_eq_iff_index_eq nth_map)
  from eq have "(eid (arr ! i) = eid (arr ! p) \<and> eid (arr ! j) = eid (arr ! q))
              \<or> (eid (arr ! i) = eid (arr ! q) \<and> eid (arr ! j) = eid (arr ! p))"
    by (auto simp: doubleton_eq_iff)
  then show ?thesis using inj b by blast
qed

text \<open>
  C8, as the code has it: the layer filter is the method of the first collider. On an array
  of entities that all carry a collider and have distinct ids, \<open>update\<close> returns, and for
  two entities of which neither lists the other's layer, the collider of the one that comes
  first in the array defining \<open>canCollideWith\<close> (as every instance of Collider does), the new
  pair map has no entry under their key and no callback invoked in the frame is about the
  two of them.
\<close>

theorem update_skips_unlisted_pair:
  assumes cols: "\<forall>e\<in>set arr. collider e \<noteq> None"
    and ids: "distinct (map eid arr)"
    and ij: "i < length arr" "j < length arr"
    and ci: "collider (arr ! i) = Some ci" and cj: "collider (arr ! j) = Some cj"
    and meth: "definesCanCollideWith (if i < j then ci else cj)"
    and no: "\<not> canCollideWith ci cj" "\<not> canCollideWith cj ci"
  shows "\<exists>sys' arr' evs. update sys arr = Inr (sys', arr', evs)
           \<and> collidingPairs sys' (getPairKey (arr ! i) (arr ! j)) = None
           \<and> (\<forall>ev\<in>set evs. eventIds ev \<noteq> {eid (arr ! i), eid (arr ! j)})"
proof -
  from update_frameInv [OF cols, of sys] obtain fr where
    run: "outerLoop sys (length arr) 0
             \<lparr>collidableArray = arr, newCollidingPairs = Map.empty, events = []\<rparr> = Inr fr"
    and inv: "frameInv arr fr" by blast
  have notal: "\<And>p q. p < q \<Longrightarrow> q < length arr \<Longrightarrow> allowed arr p q \<Longrightarrow>
                 {eid (arr ! i), eid (arr ! j)} = {eid (arr ! p), eid (arr ! q)} \<Longrightarrow> False"
  proof -
    fix p q assume pq: "p < q" "q < length arr" and al: "allowed arr p q"
      and eq: "{eid (arr ! i), eid (arr ! j)} = {eid (arr ! p), eid (arr ! q)}"
    have "p < length arr" using pq by simp
    from pair_ids_index [OF ids ij this pq(2) eq]
    have "(i = p \<and> j = q) \<or> (i = q \<and> j = p)" .
    then show False using al ci cj no meth pq(1) by (auto simp: allowed_def split: if_splits)
  qed
  have upd: "update sys arr = Inr (sys\<lparr>collidingPairs := newCollidingPairs fr\<rparr>, collidableArray fr, events fr)"
    unfolding update_def by (simp only: run sum.case)
  have k: "newCollidingPairs fr (getPairKey (arr ! i) (arr ! j)) = None"
  proof (rule ccontr)
    assume "newCollidingPairs fr (getPairKey (arr ! i) (arr ! j)) \<noteq> None"
    with inv obtain p q where pq: "p < q" "q < length arr" "allowed arr p q"
      and "getPairKey (arr ! i) (arr ! j) = getPairKey (arr ! p) (arr ! q)"
      unfolding frameInv_def by blast
    then have "{eid (arr ! i), eid (arr ! j)} = {eid (arr ! p), eid (arr ! q)}"
      using getPairKey_ids by blast
    with notal pq show False by blast
  qed
  have e: "\<forall>ev\<in>set (events fr). eventIds ev \<noteq> {eid (arr ! i), eid (arr ! j)}"
  proof
    fix ev assume "ev \<in> set (events fr)"
    with inv obtain p q where pq: "p < q" "q < length arr" "allowed arr p q"
      and "eventIds ev = {eid (arr ! p), eid (arr ! q)}"
      unfolding frameInv_def by blast
    with notal show "eventIds ev \<noteq> {eid (arr ! i), eid (arr ! j)}" by metis
  qed
  from upd k e show ?thesis by simp
qed

theorem update_skips_unlisted_pair_witness:
  "\<exists>sys' arr' evs. update emptySystem layeredPair = Inr (sys', arr', evs)
      \<and> collidingPairs sys' (getPairKey (layeredPair ! 0) (layeredPair ! 1)) = None
      \<and> (\<forall>ev\<in>set evs. eventIds ev \<noteq> {eid (layeredPair ! 0), eid (layeredPair ! 1)})"
proof -
  have cols: "\<forall>e\<in>set layeredPair. collider e \<noteq> None"
    by (simp add: layeredPair_def circleEntity_def)
  have ids: "distinct (map eid layeredPair)"
    by (simp add: layeredPair_def circleEntity_def)
  have c0: "collider (layeredPair ! 0)
      = Some \<lparr>ctype = ''circle'', radius = 5, layer = 1, collidesWith = [1], isTrigger = False,
         definesCanCollideWith = True\<rparr>"
    and c1: "collider (layeredPair ! 1)
      = Some \<lparr>ctype = ''circle'', radius = 5, layer = 2, collidesWith = [2], isTrigger = False,
         definesCanCollideWith = True\<rparr>"
    by (simp_all add: layeredPair_def circleEntity_def)
  show ?thesis
    by (rule update_skips_unlisted_pair [OF cols ids _ _ c0 c1])
       (simp_all add: layeredPair_def canCollideWith_def)
qed

section \<open>Pair state over several frames\<close>

lemma update_two:
  "update sys [a, b] =
     (case checkPair sys 0 1 \<lparr>collidableArray = [a, b], newCollidingPairs = Map.empty, events = []\<rparr> of
        Inl e \<Rightarrow> Inl e
      | Inr fr \<Rightarrow> Inr (sys\<lparr>collidingPairs := newCollidingPairs fr\<rparr>, collidableArray fr, events fr))"
proof -
  let ?fr = "\<lparr>collidableArray = [a, b], newCollidingPairs = Map.empty, events = []\<rparr>"
  have in2: "\<And>i fr. innerLoop sys 2 i 2 fr = Inr fr"
    by (subst innerLoop.simps) simp
  have in1: "innerLoop sys 2 0 1 ?fr = checkPair sys 0 1 ?fr"
    by (subst innerLoop.simps) (simp add: in2 split: sum.splits)
  have out2: "\<And>fr. outerLoop sys 2 2 fr = Inr fr"
    by (subst outerLoop.simps) simp
  have out1: "\<And>fr. outerLoop sys 2 1 fr = Inr fr"
    by (subst outerLoop.simps) (simp add: in2 out2)
  have out0: "outerLoop sys 2 0 ?fr = checkPair sys 0 1 ?fr"
    by (subst outerLoop.simps) (simp add: in1 out1 split: sum.splits)
  have "length [a, b] = 2" by simp
  then show ?thesis unfolding update_def by (simp only: out0)
qed












section \<open>Triggers and entities without Physics\<close>

text \<open>When one of the two entities has no Physics, the loop body leaves the array as it is.\<close>

lemma checkPair_no_physics:
  assumes "physics (collidableArray fr ! i) = None \<or> physics (collidableArray fr ! j) = None"
    and "checkPair sys i j fr = Inr fr'"
  shows "collidableArray fr' = collidableArray fr"
  using assms
  by (auto simp: checkPair_def Let_def split: sum.splits if_splits)

text \<open>
  C2: the claim asks that a pair with a trigger collider gets no physical response. The
  system never reads \<open>isTrigger\<close>: with the first collider a trigger and both entities
  carrying Physics, one \<open>update\<close> changes both velocities and both positions.
\<close>

theorem update_resolves_trigger_pair:
  "update emptySystem
     [circleEntity 0 [] 0 0 5 0 [0] True (Some (movingBody 1)),
      circleEntity 1 [] 6 0 5 0 [0] False (Some (movingBody 0))]
   = Inr (emptySystem\<lparr>collidingPairs := [(0, 1) \<mapsto> True]\<rparr>,
          [circleEntity 0 [] (- 1) 0 5 0 [0] True (Some (movingBody (1 / 2))),
           circleEntity 1 [] 7 0 5 0 [0] False (Some (movingBody (1 / 2)))],
          [ColliderHook 0 Start 1, ColliderHook 1 Start 0, ColliderHook 0 Stay 1, ColliderHook 1 Stay 0])"
  by (simp add: update_two checkPair_def skipsPair_def Let_def circleEntity_def emptySystem_def movingBody_def
      Physics_new_def canCollideWith_def getPairKey_def checkCollision_def resolveCollision_def
      orElse_def sqrt_36 handleCollisionStart_def handleCollisionStay_def)

section \<open>A collider without the filter method\<close>

text \<open>
  C8 as stated fails for a collider without the method: in \<open>unfilteredPair\<close> neither
  collider lists the other's layer, the first one has no \<open>canCollideWith\<close>, and \<open>update\<close>
  enters the pair into the pair map and calls the tag callback registered for the two tags.
\<close>

theorem unlisted_pair_reported_counterexample:
  "\<not> canCollideWith (the (collider (unfilteredPair ! 0))) (the (collider (unfilteredPair ! 1)))
   \<and> \<not> canCollideWith (the (collider (unfilteredPair ! 1))) (the (collider (unfilteredPair ! 0)))
   \<and> (\<exists>sys' arr' evs. update taggedSystem unfilteredPair = Inr (sys', arr', evs)
         \<and> collidingPairs sys' (getPairKey (unfilteredPair ! 0) (unfilteredPair ! 1)) = Some True
         \<and> TagCallback ''enemy:player'' 0 1 Start \<in> set evs)"
  by (simp add: unfilteredPair_def update_two checkPair_def skipsPair_def Let_def
      plainCircleEntity_def circleEntity_def taggedSystem_def emptySystem_def onCollision_def
      canCollideWith_def getPairKey_def checkCollision_def sqrt_less_iff tagKey_def
      handleCollisionStart_def handleCollisionStay_def)

section \<open>Bounds in the movement system\<close>

text \<open>
  C7: bounce at the bounds. Let \<open>(t1, p1)\<close> be position and velocity after the velocity,
  friction and rotation steps, which is what the bounds step sees. When the x position
  leaves \<open>[minX, maxX]\<close> it is set to the limit it crossed, and the x velocity becomes
  \<open>- v * bounceX\<close> for a nonzero \<open>bounceX\<close> and 0 otherwise, \<open>v\<close> being the x velocity of \<open>p1\<close>;
  likewise for y. Without friction \<open>v\<close> is the velocity the entity entered the frame with.
\<close>

theorem clamp_reflects_velocity:
  assumes t: "transform entity = Some t" and p: "physics entity = Some p"
    and b: "bounds p = Some b"
    and mid: "integrate deltaTime (t, p) = (t1, p1)"
    and out: "transform (moveEntity deltaTime entity) = Some t'" "physics (moveEntity deltaTime entity) = Some p'"
  shows "(pos_x t1 < minX b \<or> maxX b < pos_x t1 \<longrightarrow>
            pos_x t' = (if pos_x t1 < minX b then minX b else maxX b)
          \<and> velocityX p' = (if bounceX p \<noteq> 0 then - velocityX p1 * bounceX p else 0))
       \<and> (pos_y t1 < minY b \<or> maxY b < pos_y t1 \<longrightarrow>
            pos_y t' = (if pos_y t1 < minY b then minY b else maxY b)
          \<and> velocityY p' = (if bounceY p \<noteq> 0 then - velocityY p1 * bounceY p else 0))
       \<and> (\<not> 0 < friction p \<longrightarrow> velocityX p1 = velocityX p \<and> velocityY p1 = velocityY p)"
proof -
  have p1: "bounds p1 = Some b" "bounceX p1 = bounceX p" "bounceY p1 = bounceY p"
    and fr: "\<not> 0 < friction p \<Longrightarrow> p1 = p"
    using mid b by (auto simp: integrate_def Let_def split: if_splits)
  have res: "(t', p') = applyBounds (t1, p1)"
    using out t p mid by (simp add: moveEntity_def Let_def prod_eq_iff)
  show ?thesis
    using res p1 fr
    by (auto simp: applyBounds_def Let_def split: if_splits)
qed

theorem clamp_reflects_velocity_witness:
  "physics (moveEntity 1 (wallBody (- 4) (1 / 2)))
     = Some (Physics_new 2 0 0 0 (1 / 2) 0 (Some \<lparr>minX = 0, minY = 0, maxX = 100, maxY = 100\<rparr>) 1)
   \<and> velocityX (Physics_new 2 0 0 0 (1 / 2) 0 (Some \<lparr>minX = 0, minY = 0, maxX = 100, maxY = 100\<rparr>) 1)
     = - (- 4) * (1 / 2)
   \<and> physics (moveEntity 1 (wallBody (- 4) 0))
     = Some (Physics_new 0 0 0 0 0 0 (Some \<lparr>minX = 0, minY = 0, maxX = 100, maxY = 100\<rparr>) 1)"
proof -
  let ?b = "\<lparr>minX = 0, minY = 0, maxX = 100, maxY = 100\<rparr>"
  let ?p = "Physics_new (- 4) 0 0 0 (1 / 2) 0 (Some ?b) 1"
  let ?p' = "Physics_new 2 0 0 0 (1 / 2) 0 (Some ?b) 1"
  let ?t = "\<lparr>pos_x = 0, pos_y = 0, rotation = 0\<rparr>"
  let ?t1 = "\<lparr>pos_x = - 4, pos_y = 0, rotation = 0\<rparr>"
  have t: "transform (wallBody (- 4) (1 / 2)) = Some ?t"
    and p: "physics (wallBody (- 4) (1 / 2)) = Some ?p"
    by (simp_all add: wallBody_def)
  have b: "bounds ?p = Some ?b" by (simp add: Physics_new_def)
  have mid: "integrate 1 (?t, ?p) = (?t1, ?p)"
    by (simp add: integrate_def Physics_new_def Let_def)
  have out: "transform (moveEntity 1 (wallBody (- 4) (1 / 2))) = Some ?t"
    "physics (moveEntity 1 (wallBody (- 4) (1 / 2))) = Some ?p'"
    by (simp_all add: moveEntity_def wallBody_def integrate_def applyBounds_def Physics_new_def Let_def)
  from clamp_reflects_velocity [OF t p b mid out]
  have "velocityX ?p' = (if bounceX ?p \<noteq> 0 then - velocityX ?p * bounceX ?p else 0)"
    by simp
  then have "velocityX ?p' = - (- 4) * (1 / 2)" by (simp add: Physics_new_def)
  moreover have "physics (moveEntity 1 (wallBody (- 4) 0))
     = Some (Physics_new 0 0 0 0 0 0 (Some ?b) 1)"
    by (simp add: moveEntity_def wallBody_def integrate_def applyBounds_def Physics_new_def Let_def)
  ultimately show ?thesis using out(2) by simp
qed

section \<open>Destruction is idempotent\<close>

lemma heap_detachAll:
  "heap (detachAll i e w) = (heap w)(i \<mapsto> \<lparr>components = [], tagSet = [], destroyed = True\<rparr>)"
proof -
  have c: "\<And>cs w. heap (fold (\<lambda>(type, component) w.
                   unregisterComponent type i
                     (if has_onRemove component then logHook (OnRemove i type) w else w)) cs w) = heap w"
  proof -
    fix cs w show "heap (fold (\<lambda>(type, component) w.
                   unregisterComponent type i
                     (if has_onRemove component then logHook (OnRemove i type) w else w)) cs w) = heap w"
      by (induction cs arbitrary: w)
         (auto simp: unregisterComponent_def logHook_def Let_def split: option.splits)
  qed
  have t: "\<And>ts w. heap (fold (\<lambda>tag w. unregisterTag tag i w) ts w) = heap w"
  proof -
    fix ts w show "heap (fold (\<lambda>tag w. unregisterTag tag i w) ts w) = heap w"
      by (induction ts arbitrary: w) (auto simp: unregisterTag_def Let_def split: option.splits)
  qed
  show ?thesis by (simp add: detachAll_def Let_def c t)
qed

lemma Entity_destroy_dead:
  "heap w i = Some e \<Longrightarrow> destroyed e \<Longrightarrow> Entity_destroy i w = w"
  by (simp add: Entity_destroy.simps)

lemma Entity_destroy_none: "heap w i = None \<Longrightarrow> Entity_destroy i w = w"
  by (simp add: Entity_destroy.simps)

lemma Entity_destroy_live:
  assumes "heap w i = Some e" "\<not> destroyed e"
  shows "Entity_destroy i w =
           (detachAll i e w)\<lparr>entities := setDelete i (entities (detachAll i e w))\<rparr>"
proof -
  let ?w1 = "detachAll i e w"
  have h: "heap ?w1 i = Some \<lparr>components = [], tagSet = [], destroyed = True\<rparr>"
    by (simp add: heap_detachAll)
  have d: "Entity_destroy i ?w1 = ?w1" by (rule Entity_destroy_dead [OF h]) simp
  have nd: "i \<notin> set (entities ?w1) \<Longrightarrow> setDelete i (entities ?w1) = entities ?w1"
    by (auto simp: setDelete_def filter_id_conv)
  have "Entity_destroy i w = World_destroyEntity i ?w1"
    using assms by (simp add: Entity_destroy.simps)
  also have "\<dots> = ?w1\<lparr>entities := setDelete i (entities ?w1)\<rparr>"
    using nd by (simp add: World_destroyEntity.simps d Let_def)
  finally show ?thesis .
qed

text \<open>
  C4: destroying twice is destroying once. A second \<open>Entity.destroy\<close>, and a second
  \<open>World.destroyEntity\<close>, returns the world unchanged; the world includes the log of hook
  calls, so no detach hook runs again.
\<close>

theorem destroy_idempotent:
  "Entity_destroy i (Entity_destroy i w) = Entity_destroy i w
   \<and> World_destroyEntity i (World_destroyEntity i w) = World_destroyEntity i w"
proof
  show "Entity_destroy i (Entity_destroy i w) = Entity_destroy i w"
  proof (cases "heap w i")
    case None
    then show ?thesis by (simp add: Entity_destroy_none)
  next
    case (Some e)
    show ?thesis
    proof (cases "destroyed e")
      case True
      with Some show ?thesis by (simp add: Entity_destroy_dead)
    next
      case False
      have "heap (Entity_destroy i w) i = Some \<lparr>components = [], tagSet = [], destroyed = True\<rparr>"
        by (simp add: Entity_destroy_live [OF Some False] heap_detachAll)
      then show ?thesis by (rule Entity_destroy_dead) simp
    qed
  qed
next
  show "World_destroyEntity i (World_destroyEntity i w) = World_destroyEntity i w"
  proof (cases "i \<in> set (entities w)")
    case False
    then show ?thesis by (simp add: World_destroyEntity.simps)
  next
    case True
    then have "i \<notin> set (entities (World_destroyEntity i w))"
      by (simp add: World_destroyEntity.simps Let_def setDelete_def)
    then show ?thesis by (subst World_destroyEntity.simps) simp
  qed
qed

section \<open>The registry invariant\<close>

lemma set_setAdd [simp]: "set (setAdd x xs) = insert x (set xs)"
  by (auto simp: setAdd_def)

lemma distinct_setAdd [simp]: "distinct (setAdd x xs) = distinct xs"
  by (auto simp: setAdd_def)

lemma setAdd_not_Nil [simp]: "setAdd x xs \<noteq> []"
  by (auto simp: setAdd_def)

lemma set_setDelete [simp]: "set (setDelete x xs) = set xs - {x}"
  by (auto simp: setDelete_def)

lemma distinct_setDelete [simp]: "distinct xs \<Longrightarrow> distinct (setDelete x xs)"
  by (simp add: setDelete_def)

lemma indexOk_add:
  assumes "indexOk idx H"
  shows "indexOk (idxAdd k i idx) (H(k := insert i (H k)))"
  unfolding indexOk_def
proof
  fix k'
  from assms have a: "case idx k' of None \<Rightarrow> H k' = {} | Some s \<Rightarrow> s \<noteq> [] \<and> distinct s \<and> set s = H k'"
    by (simp add: indexOk_def)
  show "case idxAdd k i idx k' of None \<Rightarrow> (H(k := insert i (H k))) k' = {}
        | Some s \<Rightarrow> s \<noteq> [] \<and> distinct s \<and> set s = (H(k := insert i (H k))) k'"
    using a by (cases "k' = k") (auto simp: idxAdd_def split: option.splits)
qed

lemma indexOk_del:
  assumes "indexOk idx H"
  shows "indexOk (idxDel k i idx) (H(k := H k - {i}))"
  unfolding indexOk_def
proof
  fix k'
  from assms have a: "\<And>k'. case idx k' of None \<Rightarrow> H k' = {} | Some s \<Rightarrow> s \<noteq> [] \<and> distinct s \<and> set s = H k'"
    by (simp add: indexOk_def)
  have e: "\<And>s. setDelete i s = [] \<longleftrightarrow> set s - {i} = {}"
    by (metis set_setDelete set_empty)
  show "case idxDel k i idx k' of None \<Rightarrow> (H(k := H k - {i})) k' = {}
        | Some s \<Rightarrow> s \<noteq> [] \<and> distinct s \<and> set s = (H(k := H k - {i})) k'"
  proof (cases "k' = k")
    case False
    with a [of k'] show ?thesis by (auto simp: idxDel_def split: option.splits)
  next
    case True
    show ?thesis
    proof (cases "idx k")
      case None
      with a [of k] True show ?thesis by (simp add: idxDel_def)
    next
      case (Some s)
      with a [of k] have s: "s \<noteq> []" "distinct s" "set s = H k" by simp_all
      show ?thesis
      proof (cases "setDelete i s = []")
        case empty: True
        then have "H k - {i} = {}" using e s by simp
        with Some empty True show ?thesis by (simp add: idxDel_def)
      next
        case nonempty: False
        with Some True s show ?thesis by (simp add: idxDel_def)
      qed
    qed
  qed
qed

lemma indexOk_fold_del:
  assumes "indexOk idx H"
  shows "indexOk (fold (\<lambda>k. idxDel k i) ks idx) (\<lambda>k. if k \<in> set ks then H k - {i} else H k)"
  using assms
proof (induction ks arbitrary: idx H)
  case Nil
  then show ?case by simp
next
  case (Cons k ks)
  from indexOk_del [OF Cons.prems, of k i]
  have "indexOk (idxDel k i idx) (H(k := H k - {i}))" .
  from Cons.IH [OF this]
  have "indexOk (fold (\<lambda>k. idxDel k i) ks (idxDel k i idx))
          (\<lambda>k'. if k' \<in> set ks then (H(k := H k - {i})) k' - {i} else (H(k := H k - {i})) k')" .
  moreover have "(\<lambda>k'. if k' \<in> set ks then (H(k := H k - {i})) k' - {i} else (H(k := H k - {i})) k')
               = (\<lambda>k'. if k' \<in> set (k # ks) then H k' - {i} else H k')"
    by (rule ext) auto
  ultimately show ?case by simp
qed

lemma registerComponent_eq:
  "registerComponent t i w = w\<lparr>componentEntities := idxAdd t i (componentEntities w)\<rparr>"
  by (simp add: registerComponent_def idxAdd_def)

lemma unregisterComponent_eq:
  "unregisterComponent t i w = w\<lparr>componentEntities := idxDel t i (componentEntities w)\<rparr>"
  by (simp add: unregisterComponent_def idxDel_def Let_def split: option.splits)

lemma registerTag_eq:
  "registerTag t i w = w\<lparr>taggedEntities := idxAdd t i (taggedEntities w)\<rparr>"
  by (simp add: registerTag_def idxAdd_def)

lemma unregisterTag_eq:
  "unregisterTag t i w = w\<lparr>taggedEntities := idxDel t i (taggedEntities w)\<rparr>"
  by (simp add: unregisterTag_def idxDel_def Let_def split: option.splits)

lemma worldInv_World_new: "worldInv World_new"
  by (simp add: worldInv_def World_new_def indexOk_def hasComponent_def hasTag_def isLive_def)

lemma worldInv_logHook [simp]: "worldInv (logHook h w) = worldInv w"
  by (simp add: worldInv_def logHook_def hasComponent_def hasTag_def isLive_def)

lemma heap_logHook [simp]: "heap (logHook h w) = heap w"
  by (simp add: logHook_def)

lemma keys_mapDelete [simp]: "fst ` set (mapDelete k kvs) = fst ` set kvs - {k}"
  by (auto simp: mapDelete_def image_iff)

lemma keys_mapSet [simp]: "fst ` set (mapSet k v kvs) = insert k (fst ` set kvs)"
  by (auto simp: mapSet_def image_iff split: if_splits) force+

text \<open>Replacing the components of a live entity, with an index that matches the new holders.\<close>

lemma worldInv_set_components:
  assumes wf: "worldInv w" and e: "heap w i = Some e" and live: "\<not> destroyed e"
    and idx: "indexOk idx' (\<lambda>t. {j. if j = i then t \<in> fst ` set cs' else hasComponent w j t})"
  shows "worldInv (w\<lparr>heap := (heap w)(i \<mapsto> e\<lparr>components := cs'\<rparr>), componentEntities := idx'\<rparr>)"
proof -
  let ?w' = "w\<lparr>heap := (heap w)(i \<mapsto> e\<lparr>components := cs'\<rparr>), componentEntities := idx'\<rparr>"
  have hc: "\<And>j t. hasComponent ?w' j t = (if j = i then t \<in> fst ` set cs' else hasComponent w j t)"
    by (simp add: hasComponent_def)
  have ht: "\<And>j g. hasTag ?w' j g = hasTag w j g"
    using e by (simp add: hasTag_def)
  have li: "\<And>j. isLive ?w' j = isLive w j"
    using e live by (simp add: isLive_def)
  show ?thesis
    unfolding worldInv_def hc ht li using wf idx e live
    by (auto simp: worldInv_def)
qed

lemma worldInv_set_tags:
  assumes wf: "worldInv w" and e: "heap w i = Some e" and live: "\<not> destroyed e"
    and idx: "indexOk idx' (\<lambda>g. {j. if j = i then g \<in> set ts' else hasTag w j g})"
  shows "worldInv (w\<lparr>heap := (heap w)(i \<mapsto> e\<lparr>tagSet := ts'\<rparr>), taggedEntities := idx'\<rparr>)"
proof -
  let ?w' = "w\<lparr>heap := (heap w)(i \<mapsto> e\<lparr>tagSet := ts'\<rparr>), taggedEntities := idx'\<rparr>"
  have hc: "\<And>j t. hasComponent ?w' j t = hasComponent w j t"
    using e by (simp add: hasComponent_def)
  have ht: "\<And>j g. hasTag ?w' j g = (if j = i then g \<in> set ts' else hasTag w j g)"
    by (simp add: hasTag_def)
  have li: "\<And>j. isLive ?w' j = isLive w j"
    using e live by (simp add: isLive_def)
  show ?thesis
    unfolding worldInv_def hc ht li using wf idx e live
    by (auto simp: worldInv_def)
qed

lemma worldInv_createEntity: "worldInv w \<Longrightarrow> worldInv (fst (createEntity w))"
proof -
  assume wf: "worldInv w"
  let ?n = "entityIdCounter w"
  let ?w' = "fst (createEntity w)"
  have fresh: "heap w ?n = None"
    using wf by (cases "heap w ?n") (auto simp: worldInv_def)
  have hc: "\<And>j t. hasComponent ?w' j t = hasComponent w j t"
    using fresh by (simp add: hasComponent_def createEntity_def Let_def)
  have ht: "\<And>j g. hasTag ?w' j g = hasTag w j g"
    using fresh by (simp add: hasTag_def createEntity_def Let_def)
  have li: "\<And>j. isLive ?w' j = (j = ?n \<or> isLive w j)"
    using fresh by (simp add: isLive_def createEntity_def Let_def)
  have nin: "?n \<notin> set (entities w)"
    using wf fresh by (auto simp: worldInv_def isLive_def)
  have ce: "componentEntities ?w' = componentEntities w" "taggedEntities ?w' = taggedEntities w"
    "entities ?w' = setAdd ?n (entities w)" "entityIdCounter ?w' = ?n + 1"
    "heap ?w' = (heap w)(?n \<mapsto> \<lparr>components = [], tagSet = [], destroyed = False\<rparr>)"
    by (simp_all add: createEntity_def Let_def)
  show "worldInv ?w'"
    unfolding worldInv_def hc ht li ce using wf nin
    by (auto simp: worldInv_def less_Suc_eq)
qed

lemma worldInv_hookLog [simp]: "worldInv (w\<lparr>hookLog := l\<rparr>) = worldInv w"
  by (simp add: worldInv_def hasComponent_def hasTag_def isLive_def)

lemma worldInv_cong:
  "heap w' = heap w \<Longrightarrow> entities w' = entities w \<Longrightarrow> entityIdCounter w' = entityIdCounter w \<Longrightarrow>
   componentEntities w' = componentEntities w \<Longrightarrow> taggedEntities w' = taggedEntities w \<Longrightarrow>
   worldInv w' = worldInv w"
  by (simp add: worldInv_def hasComponent_def hasTag_def isLive_def)

lemma keyI: "(a, b) \<in> set cs \<Longrightarrow> a \<in> fst ` set cs"
  by force

lemma removeComponent_live:
  assumes "heap w i = Some e" "\<not> destroyed e" "map_of (components e) type = Some c"
  shows "removeComponent i type w
     = w\<lparr>hookLog := hookLog w @ (if has_onRemove c then [OnRemove i type] else []),
         heap := (heap w)(i \<mapsto> e\<lparr>components := mapDelete type (components e)\<rparr>),
         componentEntities := idxDel type i (componentEntities w)\<rparr>"
  using assms by (simp add: removeComponent_def Let_def unregisterComponent_eq logHook_def)

lemma removeComponent_skip:
  assumes "heap w i = None \<or> (\<exists>e. heap w i = Some e \<and> (destroyed e \<or> map_of (components e) type = None))"
  shows "\<exists>l. removeComponent i type w = w\<lparr>hookLog := l\<rparr>"
proof (cases "heap w i")
  case None
  then have "removeComponent i type w = w\<lparr>hookLog := hookLog w\<rparr>" by (simp add: removeComponent_def)
  then show ?thesis by blast
next
  case (Some e)
  with assms have d: "destroyed e \<or> map_of (components e) type = None" by simp
  show ?thesis
  proof (cases "destroyed e")
    case True
    with Some have "removeComponent i type w
        = w\<lparr>hookLog := hookLog w @ [Warning ''Cannot remove component from destroyed entity'']\<rparr>"
      by (simp add: removeComponent_def logHook_def)
    then show ?thesis by blast
  next
    case False
    with d Some have "removeComponent i type w = w\<lparr>hookLog := hookLog w\<rparr>"
      by (simp add: removeComponent_def)
    then show ?thesis by blast
  qed
qed

lemma worldInv_removeComponent: "worldInv w \<Longrightarrow> worldInv (removeComponent i type w)"
proof -
  assume wf: "worldInv w"
  show ?thesis
  proof (cases "\<exists>e c. heap w i = Some e \<and> \<not> destroyed e \<and> map_of (components e) type = Some c")
    case False
    then have "heap w i = None \<or> (\<exists>e. heap w i = Some e \<and> (destroyed e \<or> map_of (components e) type = None))"
      by (cases "heap w i") auto
    from removeComponent_skip [OF this] obtain l where "removeComponent i type w = w\<lparr>hookLog := l\<rparr>" by blast
    with wf show ?thesis by simp
  next
    case True
    then obtain e c where e: "heap w i = Some e" and live: "\<not> destroyed e"
      and c: "map_of (components e) type = Some c" by blast
    have "indexOk (componentEntities w) (\<lambda>t. {j. hasComponent w j t})"
      using wf by (simp add: worldInv_def)
    from indexOk_del [OF this, of type i]
    have "indexOk (idxDel type i (componentEntities w))
            ((\<lambda>t. {j. hasComponent w j t})(type := {j. hasComponent w j type} - {i}))" .
    moreover have "((\<lambda>t. {j. hasComponent w j t})(type := {j. hasComponent w j type} - {i}))
        = (\<lambda>t. {j. if j = i then t \<in> fst ` set (mapDelete type (components e)) else hasComponent w j t})"
    proof (rule ext)
      fix t
      show "((\<lambda>t. {j. hasComponent w j t})(type := {j. hasComponent w j type} - {i})) t
        = {j. if j = i then t \<in> fst ` set (mapDelete type (components e)) else hasComponent w j t}"
        using e by (cases "t = type") (auto simp: hasComponent_def dest: keyI)
    qed
    ultimately have "indexOk (idxDel type i (componentEntities w))
        (\<lambda>t. {j. if j = i then t \<in> fst ` set (mapDelete type (components e)) else hasComponent w j t})"
      by simp
    from worldInv_set_components [OF wf e live this]
    have "worldInv (w\<lparr>heap := (heap w)(i \<mapsto> e\<lparr>components := mapDelete type (components e)\<rparr>),
                     componentEntities := idxDel type i (componentEntities w)\<rparr>)" .
    moreover have "worldInv (removeComponent i type w)
        = worldInv (w\<lparr>heap := (heap w)(i \<mapsto> e\<lparr>components := mapDelete type (components e)\<rparr>),
                     componentEntities := idxDel type i (componentEntities w)\<rparr>)"
      by (rule worldInv_cong) (simp_all add: removeComponent_live [OF e live c])
    ultimately show ?thesis by simp
  qed
qed

lemma isDestroyed_cong: "heap w' j = heap w j \<Longrightarrow> isDestroyed w' j = isDestroyed w j"
  by (simp add: isDestroyed_def)

lemma dead_removeComponent: "isDestroyed w j \<Longrightarrow> isDestroyed (removeComponent i type w) j"
proof (cases "\<exists>e c. heap w i = Some e \<and> \<not> destroyed e \<and> map_of (components e) type = Some c")
  case False
  then have "heap w i = None \<or> (\<exists>e. heap w i = Some e \<and> (destroyed e \<or> map_of (components e) type = None))"
    by (cases "heap w i") auto
  from removeComponent_skip [OF this] obtain l where "removeComponent i type w = w\<lparr>hookLog := l\<rparr>" by blast
  then show "isDestroyed w j \<Longrightarrow> ?thesis" by (simp add: isDestroyed_def)
next
  case True
  then obtain e c where e: "heap w i = Some e" and live: "\<not> destroyed e"
    and c: "map_of (components e) type = Some c" by blast
  show "isDestroyed w j \<Longrightarrow> ?thesis"
    using e live by (auto simp: removeComponent_live [OF e live c] isDestroyed_def)
qed

lemma live_removeComponent:
  "heap w i = Some e \<Longrightarrow> \<not> destroyed e \<Longrightarrow>
   \<exists>e'. heap (removeComponent i type w) i = Some e' \<and> \<not> destroyed e'"
proof (cases "\<exists>c. map_of (components e) type = Some c")
  case False
  assume e: "heap w i = Some e" and live: "\<not> destroyed e"
  with False have "heap w i = None \<or> (\<exists>e. heap w i = Some e \<and> (destroyed e \<or> map_of (components e) type = None))"
    by auto
  from removeComponent_skip [OF this] obtain l where "removeComponent i type w = w\<lparr>hookLog := l\<rparr>" by blast
  with e live show ?thesis by simp
next
  case True
  assume e: "heap w i = Some e" and live: "\<not> destroyed e"
  from True obtain c where c: "map_of (components e) type = Some c" by blast
  show ?thesis using live by (simp add: removeComponent_live [OF e live c])
qed

lemma addComponent_live:
  assumes e: "heap w i = Some e" and live: "\<not> destroyed e"
    and w1: "w1 = (if type \<in> fst ` set (components e)
                   then removeComponent i type
                          (logHook (Warning ''Entity already has a component of this type. Replacing it.'') w)
                   else w)"
    and e1: "heap w1 i = Some e1"
  shows "addComponent i type c w =
     w1\<lparr>heap := (heap w1)(i \<mapsto> e1\<lparr>components :=
               mapSet type (if entity_ref c = Undefined then c\<lparr>entity_ref := Ref i\<rparr> else c) (components e1)\<rparr>),
         componentEntities := idxAdd type i (componentEntities w1),
         hookLog := hookLog w1 @ (if has_onAdd c then [OnAdd i type] else [])\<rparr>"
  using e live e1 unfolding w1
  by (simp add: addComponent_def Let_def registerComponent_eq logHook_def)

lemma addComponent_parts:
  assumes wf: "worldInv w"
  shows "worldInv (addComponent i type c w) \<and> (isDestroyed w j \<longrightarrow> isDestroyed (addComponent i type c w) j)"
proof (cases "\<exists>e. heap w i = Some e \<and> \<not> destroyed e")
  case False
  then have "addComponent i type c w = w \<or>
      addComponent i type c w = logHook (Warning ''Cannot add component to destroyed entity'') w"
    by (cases "heap w i") (auto simp: addComponent_def)
  then show ?thesis using wf by (auto simp: isDestroyed_def)
next
  case True
  then obtain e where e: "heap w i = Some e" and live: "\<not> destroyed e" by blast
  define w0 where "w0 = logHook (Warning ''Entity already has a component of this type. Replacing it.'') w"
  define w1 where "w1 = (if type \<in> fst ` set (components e) then removeComponent i type w0 else w)"
  have wf0: "worldInv w0" and e0: "heap w0 i = Some e" using wf e by (simp_all add: w0_def)
  have wf1: "worldInv w1" using wf wf0 by (simp add: w1_def worldInv_removeComponent)
  have "\<exists>e1. heap w1 i = Some e1 \<and> \<not> destroyed e1"
  proof (cases "type \<in> fst ` set (components e)")
    case True
    then show ?thesis using live_removeComponent [OF e0 live, of type] by (simp add: w1_def)
  next
    case False
    then show ?thesis using e live by (simp add: w1_def)
  qed
  then obtain e1 where e1: "heap w1 i = Some e1" and l1: "\<not> destroyed e1" by blast
  have d1: "isDestroyed w j \<Longrightarrow> isDestroyed w1 j"
    using dead_removeComponent [of w0 j i type] by (simp add: w1_def w0_def isDestroyed_def)
  let ?cs = "mapSet type (if entity_ref c = Undefined then c\<lparr>entity_ref := Ref i\<rparr> else c) (components e1)"
  let ?w2 = "w1\<lparr>heap := (heap w1)(i \<mapsto> e1\<lparr>components := ?cs\<rparr>),
                componentEntities := idxAdd type i (componentEntities w1)\<rparr>"
  have eq: "addComponent i type c w = ?w2\<lparr>hookLog := hookLog w1 @ (if has_onAdd c then [OnAdd i type] else [])\<rparr>"
    using addComponent_live [OF e live _ e1, of type c] by (simp add: w1_def w0_def)
  have "indexOk (componentEntities w1) (\<lambda>t. {j. hasComponent w1 j t})"
    using wf1 by (simp add: worldInv_def)
  from indexOk_add [OF this, of type i]
  have "indexOk (idxAdd type i (componentEntities w1))
          ((\<lambda>t. {j. hasComponent w1 j t})(type := insert i {j. hasComponent w1 j type}))" .
  moreover have "((\<lambda>t. {j. hasComponent w1 j t})(type := insert i {j. hasComponent w1 j type}))
      = (\<lambda>t. {j. if j = i then t \<in> fst ` set ?cs else hasComponent w1 j t})"
  proof (rule ext)
    fix t
    show "((\<lambda>t. {j. hasComponent w1 j t})(type := insert i {j. hasComponent w1 j type})) t
      = {j. if j = i then t \<in> fst ` set ?cs else hasComponent w1 j t}"
      using e1 by (cases "t = type") (auto simp: hasComponent_def dest: keyI)
  qed
  ultimately have "indexOk (idxAdd type i (componentEntities w1))
      (\<lambda>t. {j. if j = i then t \<in> fst ` set ?cs else hasComponent w1 j t})"
    by simp
  from worldInv_set_components [OF wf1 e1 l1 this] have "worldInv ?w2" .
  moreover have "worldInv (addComponent i type c w) = worldInv ?w2"
    by (rule worldInv_cong) (simp_all add: eq)
  moreover have "isDestroyed w j \<longrightarrow> isDestroyed (addComponent i type c w) j"
    using d1 e1 l1 by (auto simp: eq isDestroyed_def)
  ultimately show ?thesis by simp
qed

lemma addTag_parts:
  assumes wf: "worldInv w"
  shows "worldInv (addTag i tag w) \<and> (isDestroyed w j \<longrightarrow> isDestroyed (addTag i tag w) j)"
proof (cases "\<exists>e. heap w i = Some e \<and> \<not> destroyed e \<and> tag \<notin> set (tagSet e)")
  case False
  then have "addTag i tag w = w \<or> addTag i tag w = logHook (Warning ''Cannot add tag to destroyed entity'') w"
    by (cases "heap w i") (auto simp: addTag_def)
  then show ?thesis using wf by (auto simp: isDestroyed_def)
next
  case True
  then obtain e where e: "heap w i = Some e" and live: "\<not> destroyed e" and nt: "tag \<notin> set (tagSet e)"
    by blast
  let ?w2 = "w\<lparr>heap := (heap w)(i \<mapsto> e\<lparr>tagSet := setAdd tag (tagSet e)\<rparr>),
               taggedEntities := idxAdd tag i (taggedEntities w)\<rparr>"
  have eq: "addTag i tag w = ?w2"
    using e live nt by (simp add: addTag_def registerTag_eq)
  have "indexOk (taggedEntities w) (\<lambda>g. {j. hasTag w j g})"
    using wf by (simp add: worldInv_def)
  from indexOk_add [OF this, of tag i]
  have "indexOk (idxAdd tag i (taggedEntities w))
          ((\<lambda>g. {j. hasTag w j g})(tag := insert i {j. hasTag w j tag}))" .
  moreover have "((\<lambda>g. {j. hasTag w j g})(tag := insert i {j. hasTag w j tag}))
      = (\<lambda>g. {j. if j = i then g \<in> set (setAdd tag (tagSet e)) else hasTag w j g})"
  proof (rule ext)
    fix g
    show "((\<lambda>g. {j. hasTag w j g})(tag := insert i {j. hasTag w j tag})) g
      = {j. if j = i then g \<in> set (setAdd tag (tagSet e)) else hasTag w j g}"
      using e by (cases "g = tag") (auto simp: hasTag_def)
  qed
  ultimately have "indexOk (idxAdd tag i (taggedEntities w))
      (\<lambda>g. {j. if j = i then g \<in> set (setAdd tag (tagSet e)) else hasTag w j g})"
    by simp
  from worldInv_set_tags [OF wf e live this] have "worldInv ?w2" .
  moreover have "isDestroyed w j \<longrightarrow> isDestroyed ?w2 j"
    using e live by (auto simp: isDestroyed_def)
  ultimately show ?thesis by (simp add: eq)
qed

lemma removeTag_parts:
  assumes wf: "worldInv w"
  shows "worldInv (removeTag i tag w) \<and> (isDestroyed w j \<longrightarrow> isDestroyed (removeTag i tag w) j)"
proof (cases "\<exists>e. heap w i = Some e \<and> \<not> destroyed e \<and> tag \<in> set (tagSet e)")
  case False
  then have "removeTag i tag w = w \<or> removeTag i tag w = logHook (Warning ''Cannot remove tag from destroyed entity'') w"
    by (cases "heap w i") (auto simp: removeTag_def)
  then show ?thesis using wf by (auto simp: isDestroyed_def)
next
  case True
  then obtain e where e: "heap w i = Some e" and live: "\<not> destroyed e" and nt: "tag \<in> set (tagSet e)"
    by blast
  let ?w2 = "w\<lparr>heap := (heap w)(i \<mapsto> e\<lparr>tagSet := setDelete tag (tagSet e)\<rparr>),
               taggedEntities := idxDel tag i (taggedEntities w)\<rparr>"
  have eq: "removeTag i tag w = ?w2"
    using e live nt by (simp add: removeTag_def unregisterTag_eq)
  have "indexOk (taggedEntities w) (\<lambda>g. {j. hasTag w j g})"
    using wf by (simp add: worldInv_def)
  from indexOk_del [OF this, of tag i]
  have "indexOk (idxDel tag i (taggedEntities w))
          ((\<lambda>g. {j. hasTag w j g})(tag := {j. hasTag w j tag} - {i}))" .
  moreover have "((\<lambda>g. {j. hasTag w j g})(tag := {j. hasTag w j tag} - {i}))
      = (\<lambda>g. {j. if j = i then g \<in> set (setDelete tag (tagSet e)) else hasTag w j g})"
  proof (rule ext)
    fix g
    show "((\<lambda>g. {j. hasTag w j g})(tag := {j. hasTag w j tag} - {i})) g
      = {j. if j = i then g \<in> set (setDelete tag (tagSet e)) else hasTag w j g}"
      using e by (cases "g = tag") (auto simp: hasTag_def)
  qed
  ultimately have "indexOk (idxDel tag i (taggedEntities w))
      (\<lambda>g. {j. if j = i then g \<in> set (setDelete tag (tagSet e)) else hasTag w j g})"
    by simp
  from worldInv_set_tags [OF wf e live this] have "worldInv ?w2" .
  moreover have "isDestroyed w j \<longrightarrow> isDestroyed ?w2 j"
    using e live by (auto simp: isDestroyed_def)
  ultimately show ?thesis by (simp add: eq)
qed

lemma fold_unregisterComponent:
  "fold (\<lambda>(type, component) w.
          unregisterComponent type i
            (if has_onRemove component then logHook (OnRemove i type) w else w))
      (cs :: (string \<times> Component) list) w
   = w\<lparr>componentEntities := fold (\<lambda>k. idxDel k i) (map fst cs) (componentEntities w),
        hookLog := hookLog w @ concat (map (\<lambda>(type, component).
            if has_onRemove component then [OnRemove i type] else []) cs)\<rparr>"
proof -
  define f where "f = (\<lambda>(type, component :: Component) w.
          unregisterComponent type i
            (if has_onRemove component then logHook (OnRemove i type) w else w))"
  have step: "\<And>t c w. f (t, c) w
      = w\<lparr>componentEntities := idxDel t i (componentEntities w),
           hookLog := hookLog w @ (if has_onRemove c then [OnRemove i t] else [])\<rparr>"
    by (simp add: f_def unregisterComponent_eq logHook_def)
  have "fold f cs w
     = w\<lparr>componentEntities := fold (\<lambda>k. idxDel k i) (map fst cs) (componentEntities w),
        hookLog := hookLog w @ concat (map (\<lambda>(type, component).
            if has_onRemove component then [OnRemove i type] else []) cs)\<rparr>"
  proof (induction cs arbitrary: w)
    case Nil
    show ?case by simp
  next
    case (Cons a cs)
    obtain t c where a: "a = (t, c)" by (cases a)
    show ?case by (simp add: a Cons.IH step)
  qed
  then show ?thesis by (simp add: f_def)
qed

lemma fold_unregisterTag:
  "fold (\<lambda>tag w. unregisterTag tag i w) ts w
   = w\<lparr>taggedEntities := fold (\<lambda>k. idxDel k i) ts (taggedEntities w)\<rparr>"
  by (induction ts arbitrary: w) (simp_all add: unregisterTag_eq)

lemma detachAll_eq:
  "detachAll i e w =
     w\<lparr>componentEntities := fold (\<lambda>k. idxDel k i) (map fst (components e)) (componentEntities w),
       hookLog := hookLog w @ concat (map (\<lambda>(type, component).
            if has_onRemove component then [OnRemove i type] else []) (components e)),
       taggedEntities := fold (\<lambda>k. idxDel k i) (tagSet e) (taggedEntities w),
       heap := (heap w)(i \<mapsto> \<lparr>components = [], tagSet = [], destroyed = True\<rparr>)\<rparr>"
  by (simp add: detachAll_def Let_def fold_unregisterComponent fold_unregisterTag)

lemma Entity_destroy_parts:
  assumes wf: "worldInv w"
  shows "worldInv (Entity_destroy i w)
       \<and> (\<forall>j. isLive (Entity_destroy i w) j = (isLive w j \<and> j \<noteq> i))
       \<and> (\<forall>j. isDestroyed (Entity_destroy i w) j = (isDestroyed w j \<or> (j = i \<and> heap w i \<noteq> None)))"
proof (cases "\<exists>e. heap w i = Some e \<and> \<not> destroyed e")
  case False
  then have "Entity_destroy i w = w"
    by (cases "heap w i") (auto simp: Entity_destroy_none Entity_destroy_dead)
  then show ?thesis using wf False by (auto simp: isLive_def isDestroyed_def split: option.splits)
next
  case True
  then obtain e where e: "heap w i = Some e" and live: "\<not> destroyed e" by blast
  let ?w' = "Entity_destroy i w"
  have eq: "?w' = (detachAll i e w)\<lparr>entities := setDelete i (entities (detachAll i e w))\<rparr>"
    by (rule Entity_destroy_live [OF e live])
  have hp: "heap ?w' = (heap w)(i \<mapsto> \<lparr>components = [], tagSet = [], destroyed = True\<rparr>)"
    and en: "entities ?w' = setDelete i (entities w)"
    and cn: "entityIdCounter ?w' = entityIdCounter w"
    and ce: "componentEntities ?w' = fold (\<lambda>k. idxDel k i) (map fst (components e)) (componentEntities w)"
    and te: "taggedEntities ?w' = fold (\<lambda>k. idxDel k i) (tagSet e) (taggedEntities w)"
    by (simp_all add: eq detachAll_eq)
  have hc: "\<And>j t. hasComponent ?w' j t = (j \<noteq> i \<and> hasComponent w j t)"
    by (simp add: hasComponent_def hp)
  have ht: "\<And>j g. hasTag ?w' j g = (j \<noteq> i \<and> hasTag w j g)"
    by (simp add: hasTag_def hp)
  have li: "\<And>j. isLive ?w' j = (isLive w j \<and> j \<noteq> i)"
    by (auto simp: isLive_def hp)
  have de: "\<And>j. isDestroyed ?w' j = (isDestroyed w j \<or> (j = i \<and> heap w i \<noteq> None))"
    using e live by (auto simp: isDestroyed_def hp)
  have nh: "\<And>t. t \<notin> fst ` set (components e) \<Longrightarrow> \<not> hasComponent w i t"
    and nt: "\<And>g. g \<notin> set (tagSet e) \<Longrightarrow> \<not> hasTag w i g"
    using e by (simp_all add: hasComponent_def hasTag_def)
  have "indexOk (componentEntities w) (\<lambda>t. {j. hasComponent w j t})"
    using wf by (simp add: worldInv_def)
  from indexOk_fold_del [OF this, of i "map fst (components e)"]
  have "indexOk (componentEntities ?w')
          (\<lambda>k. if k \<in> set (map fst (components e)) then {j. hasComponent w j k} - {i} else {j. hasComponent w j k})"
    by (simp add: ce)
  moreover have "(\<lambda>k. if k \<in> set (map fst (components e)) then {j. hasComponent w j k} - {i} else {j. hasComponent w j k})
      = (\<lambda>t. {j. hasComponent ?w' j t})"
    using nh by (auto simp: fun_eq_iff hc)
  ultimately have i1: "indexOk (componentEntities ?w') (\<lambda>t. {j. hasComponent ?w' j t})" by simp
  have "indexOk (taggedEntities w) (\<lambda>g. {j. hasTag w j g})"
    using wf by (simp add: worldInv_def)
  from indexOk_fold_del [OF this, of i "tagSet e"]
  have "indexOk (taggedEntities ?w')
          (\<lambda>k. if k \<in> set (tagSet e) then {j. hasTag w j k} - {i} else {j. hasTag w j k})"
    by (simp add: te)
  moreover have "(\<lambda>k. if k \<in> set (tagSet e) then {j. hasTag w j k} - {i} else {j. hasTag w j k})
      = (\<lambda>g. {j. hasTag ?w' j g})"
    using nt by (auto simp: fun_eq_iff ht)
  ultimately have i2: "indexOk (taggedEntities ?w') (\<lambda>g. {j. hasTag ?w' j g})" by simp
  have i3: "distinct (entities ?w')" "set (entities ?w') = {j. isLive ?w' j}"
    using wf by (auto simp: en li worldInv_def)
  have i4: "\<forall>j e'. heap ?w' j = Some e' \<longrightarrow>
        j < entityIdCounter ?w' \<and> (destroyed e' \<longrightarrow> components e' = [] \<and> tagSet e' = [])"
    using wf e by (auto simp: hp cn worldInv_def)
  have "worldInv ?w'"
    unfolding worldInv_def using i1 i2 i3 i4 by blast
  with li de show ?thesis by blast
qed

lemma World_destroyEntity_eq:
  assumes wf: "worldInv w"
  shows "World_destroyEntity i w = (if i \<in> set (entities w) then Entity_destroy i w else w)"
proof (cases "i \<in> set (entities w)")
  case False
  then show ?thesis by (simp add: World_destroyEntity.simps)
next
  case True
  from Entity_destroy_parts [OF wf, of i] have "worldInv (Entity_destroy i w)"
    and "\<not> isLive (Entity_destroy i w) i" by simp_all
  then have "i \<notin> set (entities (Entity_destroy i w))" by (auto simp: worldInv_def)
  then have "setDelete i (entities (Entity_destroy i w)) = entities (Entity_destroy i w)"
    by (auto simp: setDelete_def filter_id_conv)
  with True show ?thesis by (simp add: World_destroyEntity.simps Let_def)
qed

lemma fold_Entity_destroy_parts:
  "worldInv w \<Longrightarrow>
   worldInv (fold Entity_destroy xs w)
   \<and> (\<forall>j. isLive (fold Entity_destroy xs w) j = (isLive w j \<and> j \<notin> set xs))
   \<and> (\<forall>j. isDestroyed w j \<longrightarrow> isDestroyed (fold Entity_destroy xs w) j)"
proof (induction xs arbitrary: w)
  case Nil
  then show ?case by simp
next
  case (Cons x xs)
  from Entity_destroy_parts [OF Cons.prems, of x]
  have a: "worldInv (Entity_destroy x w)"
    and b: "\<And>j. isLive (Entity_destroy x w) j = (isLive w j \<and> j \<noteq> x)"
    and c: "\<And>j. isDestroyed (Entity_destroy x w) j = (isDestroyed w j \<or> (j = x \<and> heap w x \<noteq> None))"
    by simp_all
  from Cons.IH [OF a] b c show ?case by auto
qed

lemma clear_parts:
  assumes wf: "worldInv w"
  shows "worldInv (clear w) \<and> (isDestroyed w j \<longrightarrow> isDestroyed (clear w) j)"
proof -
  let ?w1 = "fold Entity_destroy (entities w) w"
  from fold_Entity_destroy_parts [OF wf, of "entities w"]
  have a: "worldInv ?w1" and b: "\<And>j. isLive ?w1 j = (isLive w j \<and> j \<notin> set (entities w))"
    and c: "\<And>j. isDestroyed w j \<Longrightarrow> isDestroyed ?w1 j" by simp_all
  have nolive: "\<And>j. \<not> isLive ?w1 j" using b wf by (auto simp: worldInv_def)
  have dead: "\<And>j e. heap ?w1 j = Some e \<Longrightarrow> components e = [] \<and> tagSet e = []"
  proof -
    fix j e assume h: "heap ?w1 j = Some e"
    with nolive [of j] have "destroyed e" by (simp add: isLive_def)
    with a h show "components e = [] \<and> tagSet e = []" by (auto simp: worldInv_def)
  qed
  have hc: "\<And>j t. \<not> hasComponent ?w1 j t" and ht: "\<And>j g. \<not> hasTag ?w1 j g"
    using dead by (auto simp: hasComponent_def hasTag_def split: option.splits)
  let ?w2 = "?w1\<lparr>entities := [], componentEntities := Map.empty, taggedEntities := Map.empty\<rparr>"
  have eq: "clear w = ?w2" by (simp add: clear_def Let_def)
  have hc2: "\<And>j t. hasComponent ?w2 j t = hasComponent ?w1 j t"
    and ht2: "\<And>j g. hasTag ?w2 j g = hasTag ?w1 j g"
    and li2: "\<And>j. isLive ?w2 j = isLive ?w1 j"
    and de2: "\<And>j. isDestroyed ?w2 j = isDestroyed ?w1 j"
    by (simp_all add: hasComponent_def hasTag_def isLive_def isDestroyed_def)
  have "worldInv ?w2"
    unfolding worldInv_def hc2 ht2 li2 using a hc ht nolive
    by (auto simp: indexOk_def worldInv_def)
  with c de2 show ?thesis by (simp add: eq)
qed

lemma exec_parts:
  assumes wf: "worldInv w"
  shows "worldInv (exec op w) \<and> (isDestroyed w j \<longrightarrow> isDestroyed (exec op w) j)"
proof (cases op)
  case CreateEntity
  have fresh: "heap w (entityIdCounter w) = None"
    using wf by (cases "heap w (entityIdCounter w)") (auto simp: worldInv_def)
  have "isDestroyed w j \<longrightarrow> isDestroyed (fst (createEntity w)) j"
    using fresh by (auto simp: isDestroyed_def createEntity_def Let_def)
  with worldInv_createEntity [OF wf] CreateEntity show ?thesis by simp
next
  case (AddComponent i type c)
  with addComponent_parts [OF wf] show ?thesis by simp
next
  case (RemoveComponent i type)
  with worldInv_removeComponent [OF wf] dead_removeComponent show ?thesis by simp
next
  case (AddTag i tag)
  with addTag_parts [OF wf] show ?thesis by simp
next
  case (RemoveTag i tag)
  with removeTag_parts [OF wf] show ?thesis by simp
next
  case (Destroy i)
  with Entity_destroy_parts [OF wf, of i] show ?thesis by simp
next
  case (DestroyEntity i)
  with Entity_destroy_parts [OF wf, of i] wf show ?thesis
    by (simp add: World_destroyEntity_eq)
next
  case Clear
  with clear_parts [OF wf] show ?thesis by simp
qed

lemma run_parts:
  "worldInv w \<Longrightarrow> worldInv (run ops w) \<and> (isDestroyed w j \<longrightarrow> isDestroyed (run ops w) j)"
  unfolding run_def
proof (induction ops arbitrary: w)
  case Nil
  then show ?case by simp
next
  case (Cons op ops)
  from exec_parts [OF Cons.prems, of op j]
  have a: "worldInv (exec op w)" and b: "isDestroyed w j \<longrightarrow> isDestroyed (exec op w) j" by simp_all
  from Cons.IH [OF a] b show ?case by simp
qed

lemma worldInv_run: "worldInv (run ops World_new)"
  using run_parts [OF worldInv_World_new] by simp

section \<open>Queries and destroyed entities\<close>

lemma intersectRest_set:
  "set (intersectRest w ts result) = {i \<in> set result. \<forall>t\<in>set ts. i \<in> idxSet (componentEntities w) t}"
proof (induction ts arbitrary: result)
  case Nil
  show ?case by simp
next
  case (Cons t ts)
  show ?case
  proof (cases "componentEntities w t")
    case None
    then show ?thesis by (simp add: idxSet_def)
  next
    case (Some s)
    show ?thesis
    proof (cases "filter (\<lambda>entity. entity \<in> set s) result = []")
      case True
      then have "\<forall>i\<in>set result. i \<notin> set s" by (simp add: filter_empty_conv)
      with Some True show ?thesis by (auto simp: idxSet_def)
    next
      case False
      with Some Cons.IH [of "filter (\<lambda>entity. entity \<in> set s) result"]
      show ?thesis by (auto simp: idxSet_def Let_def)
    qed
  qed
qed

lemma intersectRest_distinct: "distinct result \<Longrightarrow> distinct (intersectRest w ts result)"
  by (induction ts arbitrary: result) (auto simp: Let_def split: option.splits)

lemma intersectRest_missing:
  "t \<in> set ts \<Longrightarrow> componentEntities w t = None \<Longrightarrow> intersectRest w ts result = []"
  by (induction ts arbitrary: result) (auto simp: Let_def split: option.splits)

lemma idxSet_worldInv:
  assumes "worldInv w"
  shows "idxSet (componentEntities w) t = {i. hasComponent w i t}"
    and "idxSet (taggedEntities w) g = {i. hasTag w i g}"
proof -
  from assms have a: "indexOk (componentEntities w) (\<lambda>t. {i. hasComponent w i t})"
    and b: "indexOk (taggedEntities w) (\<lambda>g. {i. hasTag w i g})"
    by (simp_all add: worldInv_def)
  from a have "case componentEntities w t of None \<Rightarrow> {i. hasComponent w i t} = {}
      | Some s \<Rightarrow> s \<noteq> [] \<and> distinct s \<and> set s = {i. hasComponent w i t}"
    unfolding indexOk_def by blast
  then show "idxSet (componentEntities w) t = {i. hasComponent w i t}"
    by (simp add: idxSet_def split: option.splits)
  from b have "case taggedEntities w g of None \<Rightarrow> {i. hasTag w i g} = {}
      | Some s \<Rightarrow> s \<noteq> [] \<and> distinct s \<and> set s = {i. hasTag w i g}"
    unfolding indexOk_def by blast
  then show "idxSet (taggedEntities w) g = {i. hasTag w i g}"
    by (simp add: idxSet_def split: option.splits)
qed

lemma index_distinct:
  assumes "worldInv w" "componentEntities w t = Some s"
  shows "distinct s"
proof -
  from assms(1) have "indexOk (componentEntities w) (\<lambda>t. {i. hasComponent w i t})"
    by (simp add: worldInv_def)
  then have "case componentEntities w t of None \<Rightarrow> {i. hasComponent w i t} = {}
      | Some s \<Rightarrow> s \<noteq> [] \<and> distinct s \<and> set s = {i. hasComponent w i t}"
    unfolding indexOk_def by blast
  with assms(2) show ?thesis by simp
qed

lemma holder_is_live:
  assumes "worldInv w" "hasComponent w i t"
  shows "isLive w i"
proof -
  from assms(2) obtain e where e: "heap w i = Some e" and c: "t \<in> fst ` set (components e)"
    by (auto simp: hasComponent_def split: option.splits)
  from c have "components e \<noteq> []" by auto
  with assms(1) e have "\<not> destroyed e" by (auto simp: worldInv_def)
  with e show ?thesis by (simp add: isLive_def)
qed

lemma query_set:
  assumes wf: "worldInv w"
  shows "set (getEntitiesWithComponents w ts) = {i. isLive w i \<and> (\<forall>t\<in>set ts. hasComponent w i t)}"
proof (cases ts)
  case Nil
  with wf show ?thesis by (simp add: getEntitiesWithComponents_def worldInv_def)
next
  case (Cons t rest)
  have "set (getEntitiesWithComponents w ts)
      = {i. \<forall>t\<in>set ts. i \<in> idxSet (componentEntities w) t}"
    by (cases "componentEntities w t")
       (auto simp: Cons getEntitiesWithComponents_def intersectRest_set idxSet_def)
  also have "\<dots> = {i. \<forall>t\<in>set ts. hasComponent w i t}"
    by (simp add: idxSet_worldInv [OF wf])
  also have "\<dots> = {i. isLive w i \<and> (\<forall>t\<in>set ts. hasComponent w i t)}"
    using holder_is_live [OF wf] Cons by auto
  finally show ?thesis .
qed

text \<open>
  C6: the component query. In every world reached from the empty one by the registry's
  operations, the result lists, without repetition, exactly the live entities that hold
  every listed type; it is the same set for any order of the types; the empty list of types
  gives all entities of the world; and a listed type that nobody holds gives the empty list.
\<close>

theorem query_is_intersection:
  "set (getEntitiesWithComponents (run ops World_new) ts)
      = {i. isLive (run ops World_new) i \<and> (\<forall>t\<in>set ts. hasComponent (run ops World_new) i t)}
   \<and> distinct (getEntitiesWithComponents (run ops World_new) ts)
   \<and> (set ts' = set ts \<longrightarrow>
        set (getEntitiesWithComponents (run ops World_new) ts')
          = set (getEntitiesWithComponents (run ops World_new) ts))
   \<and> getEntitiesWithComponents (run ops World_new) [] = entities (run ops World_new)
   \<and> ((\<exists>t\<in>set ts. \<forall>i. \<not> hasComponent (run ops World_new) i t) \<longrightarrow>
        getEntitiesWithComponents (run ops World_new) ts = [])"
proof -
  let ?w = "run ops World_new"
  have wf: "worldInv ?w" by (rule worldInv_run)
  have a: "\<And>ts. set (getEntitiesWithComponents ?w ts)
      = {i. isLive ?w i \<and> (\<forall>t\<in>set ts. hasComponent ?w i t)}"
    by (rule query_set [OF wf])
  have b: "distinct (getEntitiesWithComponents ?w ts)"
  proof (cases ts)
    case Nil
    with wf show ?thesis by (simp add: getEntitiesWithComponents_def worldInv_def)
  next
    case (Cons t rest)
    show ?thesis
      using index_distinct [OF wf, of t]
      by (cases "componentEntities ?w t")
         (simp_all add: Cons getEntitiesWithComponents_def intersectRest_distinct)
  qed
  have c: "set ts' = set ts \<longrightarrow>
        set (getEntitiesWithComponents ?w ts') = set (getEntitiesWithComponents ?w ts)"
    by (simp add: a)
  have d: "getEntitiesWithComponents ?w [] = entities ?w"
    by (simp add: getEntitiesWithComponents_def)
  have e: "(\<exists>t\<in>set ts. \<forall>i. \<not> hasComponent ?w i t) \<longrightarrow> getEntitiesWithComponents ?w ts = []"
  proof
    assume "\<exists>t\<in>set ts. \<forall>i. \<not> hasComponent ?w i t"
    then have "set (getEntitiesWithComponents ?w ts) = {}" by (auto simp: a)
    then show "getEntitiesWithComponents ?w ts = []" by simp
  qed
  from a b c d e show ?thesis by blast
qed

lemma run_append: "run (ops1 @ ops2) w = run ops2 (run ops1 w)"
  by (simp add: run_def)

lemma run_Cons: "run (op # ops) w = run ops (exec op w)"
  by (simp add: run_def)

text \<open>
  C5: a destroyed entity is gone from every index. Let an entity that exists be destroyed,
  through \<open>Entity.destroy\<close> or \<open>World.destroyEntity\<close>, after any operations \<open>ops1\<close>. Then after
  any further operations \<open>ops2\<close> it is in no component query result, in no tag lookup, in no
  set of either reverse index and not among the world's entities.
\<close>

theorem destroyed_entity_purged:
  assumes created: "heap (run ops1 World_new) i \<noteq> None"
    and d: "d = Destroy i \<or> d = DestroyEntity i"
  shows "i \<notin> set (getEntitiesWithComponents (run (ops1 @ d # ops2) World_new) ts)
       \<and> i \<notin> set (getEntitiesWithTag (run (ops1 @ d # ops2) World_new) tag)
       \<and> i \<notin> set (getEntitiesByComponent (run (ops1 @ d # ops2) World_new) t)
       \<and> i \<notin> set (getEntitiesByTag (run (ops1 @ d # ops2) World_new) tag)
       \<and> i \<notin> set (entities (run (ops1 @ d # ops2) World_new))"
proof -
  let ?w1 = "run ops1 World_new"
  let ?w2 = "exec d ?w1"
  let ?w = "run (ops1 @ d # ops2) World_new"
  have wf1: "worldInv ?w1" by (rule worldInv_run)
  have dead2: "isDestroyed ?w2 i"
  proof (cases "i \<in> set (entities ?w1) \<or> d = Destroy i")
    case True
    then have "?w2 = Entity_destroy i ?w1"
      using d wf1 by (auto simp: World_destroyEntity_eq)
    with Entity_destroy_parts [OF wf1, of i] created show ?thesis by simp
  next
    case False
    then have eq: "?w2 = ?w1" using d wf1 by (auto simp: World_destroyEntity_eq)
    from False wf1 have "\<not> isLive ?w1 i" by (auto simp: worldInv_def)
    with created have "isDestroyed ?w1 i" by (auto simp: isLive_def isDestroyed_def)
    with eq show ?thesis by simp
  qed
  have wf2: "worldInv ?w2" using exec_parts [OF wf1, of d] by simp
  have w: "?w = run ops2 ?w2" by (simp add: run_append run_Cons)
  from run_parts [OF wf2, of ops2 i] dead2 have wf: "worldInv ?w" and dead: "isDestroyed ?w i"
    by (simp_all add: w)
  from dead obtain e where e: "heap ?w i = Some e" "destroyed e"
    by (auto simp: isDestroyed_def split: option.splits)
  with wf have "components e = []" "tagSet e = []" by (auto simp: worldInv_def)
  with e have nc: "\<And>t. \<not> hasComponent ?w i t" and nt: "\<And>g. \<not> hasTag ?w i g" and nl: "\<not> isLive ?w i"
    by (simp_all add: hasComponent_def hasTag_def isLive_def)
  have "i \<notin> set (getEntitiesWithComponents ?w ts)"
    using query_set [OF wf, of ts] nl by simp
  moreover have "i \<notin> set (getEntitiesWithTag ?w tag)" "i \<notin> set (getEntitiesByTag ?w tag)"
    using idxSet_worldInv(2) [OF wf, of tag] nt
    by (auto simp: getEntitiesWithTag_def getEntitiesByTag_def idxSet_def split: option.splits)
  moreover have "i \<notin> set (getEntitiesByComponent ?w t)"
    using idxSet_worldInv(1) [OF wf, of t] nc
    by (auto simp: getEntitiesByComponent_def idxSet_def split: option.splits)
  moreover have "i \<notin> set (entities ?w)"
    using wf nl by (auto simp: worldInv_def)
  ultimately show ?thesis by blast
qed

lemma threeEntities_world:
  "componentEntities (run threeEntities World_new) = [''A'' \<mapsto> [0, 1], ''B'' \<mapsto> [1, 2]]"
  by (simp add: threeEntities_def run_def World_new_def createEntity_def addComponent_def
      registerComponent_def plainComponent_def logHook_def mapSet_def setAdd_def Let_def)

theorem query_is_intersection_witness:
  "set (getEntitiesWithComponents (run threeEntities World_new) [''B'', ''A''])
     = set (getEntitiesWithComponents (run threeEntities World_new) [''A'', ''B''])
   \<and> getEntitiesWithComponents (run threeEntities World_new) [''A'', ''B''] = [1]
   \<and> getEntitiesWithComponents (run threeEntities World_new) [''A'', ''C''] = []"
proof -
  have s: "set [''B'', ''A''] = set [''A'', ''B'']" by auto
  from query_is_intersection [of threeEntities "[''A'', ''B'']" "[''B'', ''A'']"] s
  have "set (getEntitiesWithComponents (run threeEntities World_new) [''B'', ''A''])
     = set (getEntitiesWithComponents (run threeEntities World_new) [''A'', ''B''])"
    by blast
  moreover have "getEntitiesWithComponents (run threeEntities World_new) [''A'', ''B''] = [1]"
    by (simp add: getEntitiesWithComponents_def threeEntities_world Let_def)
  moreover have "getEntitiesWithComponents (run threeEntities World_new) [''A'', ''C''] = []"
    by (simp add: getEntitiesWithComponents_def threeEntities_world Let_def)
  ultimately show ?thesis by blast
qed

theorem destroyed_entity_purged_witness:
  "0 \<notin> set (getEntitiesWithComponents (run (taggedEnemy @ Destroy 0 # laterOps) World_new) [''Transform''])
   \<and> 0 \<notin> set (getEntitiesWithTag (run (taggedEnemy @ Destroy 0 # laterOps) World_new) ''enemy'')
   \<and> 0 \<notin> set (getEntitiesByComponent (run (taggedEnemy @ Destroy 0 # laterOps) World_new) ''Physics'')
   \<and> 0 \<notin> set (getEntitiesByTag (run (taggedEnemy @ Destroy 0 # laterOps) World_new) ''enemy'')
   \<and> 0 \<notin> set (entities (run (taggedEnemy @ Destroy 0 # laterOps) World_new))"
proof -
  have created: "heap (run taggedEnemy World_new) 0 \<noteq> None"
    by (simp add: taggedEnemy_def run_def World_new_def createEntity_def addComponent_def addTag_def
        registerComponent_def registerTag_def plainComponent_def logHook_def mapSet_def setAdd_def Let_def)
  show ?thesis
    by (rule destroyed_entity_purged [OF created]) simp
qed

section \<open>Neighbours in the spatial grid\<close>

lemma scan_cell:
  "distinct result \<Longrightarrow>
   distinct (fold (\<lambda>other result.
                if other \<noteq> entity \<and> typeMatches g type other
                then (if other \<in> set result then result else result @ [other])
                else result) cell result)
   \<and> set (fold (\<lambda>other result.
                if other \<noteq> entity \<and> typeMatches g type other
                then (if other \<in> set result then result else result @ [other])
                else result) cell result)
     = set result \<union> {other \<in> set cell. other \<noteq> entity \<and> typeMatches g type other}"
  by (induction cell arbitrary: result) auto

lemma scan_cells:
  "distinct result \<Longrightarrow>
   distinct (fold (\<lambda>key result.
                      (case cells g key of
                         None \<Rightarrow> result
                       | Some cell \<Rightarrow>
                          fold (\<lambda>other result.
                                  if other \<noteq> entity \<and> typeMatches g type other
                                  then (if other \<in> set result then result else result @ [other])
                                  else result)
                               cell result)) keys result)
   \<and> set (fold (\<lambda>key result.
                      (case cells g key of
                         None \<Rightarrow> result
                       | Some cell \<Rightarrow>
                          fold (\<lambda>other result.
                                  if other \<noteq> entity \<and> typeMatches g type other
                                  then (if other \<in> set result then result else result @ [other])
                                  else result)
                               cell result)) keys result)
     = set result \<union> {other. other \<noteq> entity \<and> typeMatches g type other
                          \<and> (\<exists>key\<in>set keys. other \<in> cellMembers g key)}"
proof (induction keys arbitrary: result)
  case Nil
  then show ?case by simp
next
  case (Cons key keys)
  show ?case
  proof (cases "cells g key")
    case None
    with Cons.IH [OF Cons.prems] show ?thesis by (auto simp: cellMembers_def)
  next
    case (Some cell)
    let ?r = "fold (\<lambda>other result.
                if other \<noteq> entity \<and> typeMatches g type other
                then (if other \<in> set result then result else result @ [other])
                else result) cell result"
    from scan_cell [OF Cons.prems, where entity = entity and g = g and type = type and cell = cell]
    have d: "distinct ?r"
      and s: "set ?r = set result \<union> {other \<in> set cell. other \<noteq> entity \<and> typeMatches g type other}"
      by simp_all
    from Cons.IH [OF d] Some s show ?thesis by (auto simp: cellMembers_def)
  qed
qed

text \<open>
  C9: for an object with a position and recorded cells, \<open>getNearbyEntities\<close> returns, each
  once and never the object itself, exactly the objects that are in one of its recorded
  cells and pass the type filter.
\<close>

theorem getNearbyEntities_union:
  assumes "objects g entity = Some obj" "position obj \<noteq> None" "spatialCells obj = Some keys"
  shows "distinct (getNearbyEntities g entity type)
       \<and> entity \<notin> set (getNearbyEntities g entity type)
       \<and> set (getNearbyEntities g entity type)
           = {other. other \<noteq> entity \<and> typeMatches g type other
                \<and> (\<exists>key\<in>set keys. other \<in> cellMembers g key)}"
proof -
  from assms(2) obtain pos where pos: "position obj = Some pos" by auto
  have eq: "getNearbyEntities g entity type
      = fold (\<lambda>key result.
                      (case cells g key of
                         None \<Rightarrow> result
                       | Some cell \<Rightarrow>
                          fold (\<lambda>other result.
                                  if other \<noteq> entity \<and> typeMatches g type other
                                  then (if other \<in> set result then result else result @ [other])
                                  else result)
                               cell result)) keys []"
    using assms pos by (simp add: getNearbyEntities_def)
  from scan_cells [where result = "[]" and g = g and entity = entity and type = type and keys = keys]
  show ?thesis unfolding eq by auto
qed

lemma fill_cells:
  "fst (fold (\<lambda>key (recorded, cs).
               (recorded @ [key],
                cs(key \<mapsto> (case cs key of None \<Rightarrow> [] | Some cell \<Rightarrow> cell) @ [entity])))
             keys (recorded, cs)) = recorded @ keys
   \<and> (\<forall>k. (case snd (fold (\<lambda>key (recorded, cs).
               (recorded @ [key],
                cs(key \<mapsto> (case cs key of None \<Rightarrow> [] | Some cell \<Rightarrow> cell) @ [entity])))
             keys (recorded, cs)) k of None \<Rightarrow> {} | Some cell \<Rightarrow> set cell)
        = (case cs k of None \<Rightarrow> {} | Some cell \<Rightarrow> set cell)
          \<union> (if k \<in> set keys then {entity} else {}))"
proof (induction keys arbitrary: recorded cs)
  case Nil
  show ?case by simp
next
  case (Cons key keys)
  show ?case
    using Cons.IH [of "recorded @ [key]"
        "cs(key \<mapsto> (case cs key of None \<Rightarrow> [] | Some cell \<Rightarrow> cell) @ [entity])"]
    by (auto split: option.splits if_splits)
qed

text \<open>
  After an insertion the object records exactly the cells of its range, and it is a member
  of each of them.
\<close>

lemma insertEntity_occupies:
  assumes "objects g entity = Some obj" "position obj = Some (x, y)" "colliderRadius obj = Some r"
  shows "\<exists>obj'. objects (insertEntity entity g) entity = Some obj'
           \<and> position obj' = Some (x, y)
           \<and> spatialCells obj' = Some (cellRange g x y (orElse r 0))
           \<and> (\<forall>key\<in>set (cellRange g x y (orElse r 0)).
                 entity \<in> cellMembers (insertEntity entity g) key)"
proof -
  let ?keys = "cellRange g x y (orElse r 0)"
  let ?filled = "fold (\<lambda>key (recorded, cs).
               (recorded @ [key],
                cs(key \<mapsto> (case cs key of None \<Rightarrow> [] | Some cell \<Rightarrow> cell) @ [entity])))
             ?keys ([], cells g)"
  note fc = fill_cells [of entity ?keys "[]" "cells g"]
  from fc [THEN conjunct1] have f1: "fst ?filled = ?keys" by simp
  have f2: "\<And>k. (case snd ?filled k of None \<Rightarrow> {} | Some cell \<Rightarrow> set cell)
        = (case cells g k of None \<Rightarrow> {} | Some cell \<Rightarrow> set cell)
          \<union> (if k \<in> set ?keys then {entity} else {})"
    by (rule fc [THEN conjunct2, THEN spec])
  have eq: "insertEntity entity g
      = g\<lparr>cells := snd ?filled,
           objects := (objects g)(entity \<mapsto> obj\<lparr>spatialCells := Some (fst ?filled)\<rparr>)\<rparr>"
    using assms by (simp add: insertEntity_def Let_def)
  have "\<forall>key\<in>set ?keys. entity \<in> cellMembers (insertEntity entity g) key"
  proof
    fix key assume "key \<in> set ?keys"
    with f2 [of key] show "entity \<in> cellMembers (insertEntity entity g) key"
      by (simp add: eq cellMembers_def)
  qed
  then show ?thesis using assms f1 by (simp add: eq)
qed

lemma upto_01: "[0..1::int] = [0, 1]" "[0..0::int] = [0]" "[1..1::int] = [1]"
  by (simp_all add: upto.simps)

lemma threeObjectGrid_cells:
  "cells threeObjectGrid = [(0, 0) \<mapsto> [0, 1], (0, 1) \<mapsto> [0, 2], (1, 0) \<mapsto> [0, 1], (1, 1) \<mapsto> [0]]"
  "objects threeObjectGrid 0 = Some ((gridObject 50 50 10 None)\<lparr>spatialCells := Some [(0, 0), (0, 1), (1, 0), (1, 1)]\<rparr>)"
  "objects threeObjectGrid 1 = Some ((gridObject 50 25 10 (Some ''player''))\<lparr>spatialCells := Some [(0, 0), (1, 0)]\<rparr>)"
  "objects threeObjectGrid 2 = Some ((gridObject 10 90 5 (Some ''enemy''))\<lparr>spatialCells := Some [(0, 1)]\<rparr>)"
  by (simp_all add: threeObjectGrid_def insertEntity_def SpatialHashGrid_new_def gridObject_def
      cellRange_def orElse_def Let_def upto_01 fun_upd_twist)

theorem getNearbyEntities_union_witness:
  "distinct (getNearbyEntities threeObjectGrid 0 None)
   \<and> 0 \<notin> set (getNearbyEntities threeObjectGrid 0 None)
   \<and> getNearbyEntities threeObjectGrid 0 None = [1, 2]
   \<and> getNearbyEntities threeObjectGrid 0 (Some ''enemy'') = [2]"
proof -
  let ?obj = "(gridObject 50 50 10 None)\<lparr>spatialCells := Some [(0, 0), (0, 1), (1, 0), (1, 1)]\<rparr>"
  have p: "position ?obj \<noteq> None" and c: "spatialCells ?obj = Some [(0, 0), (0, 1), (1, 0), (1, 1)]"
    by (simp_all add: gridObject_def)
  from getNearbyEntities_union [OF threeObjectGrid_cells(2) p c, of None]
  have "distinct (getNearbyEntities threeObjectGrid 0 None)
      \<and> 0 \<notin> set (getNearbyEntities threeObjectGrid 0 None)"
    by blast
  moreover have o1: "objects threeObjectGrid (Suc 0)
      = Some ((gridObject 50 25 10 (Some ''player''))\<lparr>spatialCells := Some [(0, 0), (1, 0)]\<rparr>)"
    using threeObjectGrid_cells(3) by simp
  moreover have "getNearbyEntities threeObjectGrid 0 None = [1, 2]"
    by (simp add: getNearbyEntities_def threeObjectGrid_cells gridObject_def typeMatches_def)
  moreover have "getNearbyEntities threeObjectGrid 0 (Some ''enemy'') = [2]"
    by (simp add: getNearbyEntities_def threeObjectGrid_cells o1 gridObject_def typeMatches_def)
  ultimately show ?thesis by blast
qed

end
